theory Spec2Isabelle
  imports Main "HOL-Library.Word" "HOL-Library.AList"
begin

section \<open>Common types\<close>

text \<open>
  \<^verbatim>\<open>std::size_t\<close> is a 64-bit unsigned integer: subtraction wraps around.
  Object identities (the addresses of \<^verbatim>\<open>QObject\<close>s, \<^verbatim>\<open>QThread\<close>s and functions) are
  natural numbers; a pointer that may be \<^verbatim>\<open>nullptr\<close> is an \<open>option\<close>, \<open>None\<close> being
  \<^verbatim>\<open>nullptr\<close>. A \<^verbatim>\<open>QUuid\<close> is an opaque value compared for equality only.
\<close>

type_synonym size_t = "64 word"
type_synonym ptr = nat
type_synonym QThread = nat
type_synonym QUuid = nat

datatype ConnectionType =
  AutoConnection | DirectConnection | QueuedConnection | BlockingQueuedConnection

section \<open>Magic.h: invokeInContext\<close>

text \<open>
  \<^verbatim>\<open>invokeInContext\<close> chooses between two lambdas, one capturing the arguments by
  reference and one capturing them by copy, and hands the chosen lambda with the unchanged
  connection type to \<^verbatim>\<open>QMetaObject::invokeMethod\<close> of the host framework. The model
  returns that call; the \<^verbatim>\<open>bool\<close> of the source is the host's answer to it.
  \<open>currentThread\<close> is \<^verbatim>\<open>QThread::currentThread()\<close> and \<open>contextThread\<close> is
  \<^verbatim>\<open>context->thread()\<close>.
\<close>

datatype capture = ByReference | ByCopy

datatype hostCall = InvokeMethod ptr capture ConnectionType

definition invokeInContext :: "QThread \<Rightarrow> QThread \<Rightarrow> ptr \<Rightarrow> ConnectionType \<Rightarrow> hostCall" where
  "invokeInContext currentThread contextThread context connectionType =
     (if connectionType = DirectConnection \<or> connectionType = BlockingQueuedConnection \<or>
         (connectionType = AutoConnection \<and> currentThread = contextThread)
      then InvokeMethod context ByReference connectionType
      else InvokeMethod context ByCopy connectionType)"

section \<open>Worker.h and Processor.h: setupConnections\<close>

record Worker =
  workerUUID :: size_t
  uniqueWorkerUUID :: QUuid
  workerControllerContext :: "ptr option"
  workerController :: "ptr option"
  processorContext :: "ptr option"
  processor :: "ptr option"
  workDone :: "ptr option"
  resultCalculated :: "ptr option"

text \<open>The constructor \<^verbatim>\<open>Worker()\<close>; the id comes from \<^verbatim>\<open>QUuid::createUuid()\<close>.\<close>

definition newWorker :: "QUuid \<Rightarrow> Worker" where
  "newWorker u = \<lparr> workerUUID = 0, uniqueWorkerUUID = u,
     workerControllerContext = None, workerController = None,
     processorContext = None, processor = None,
     workDone = None, resultCalculated = None \<rparr>"

text \<open>\<^verbatim>\<open>p ? p : old\<close> on a pointer.\<close>

definition orKeep :: "'a option \<Rightarrow> 'a option \<Rightarrow> 'a option" where
  "orKeep new old = (case new of None \<Rightarrow> old | Some p \<Rightarrow> Some p)"

definition Worker_setupConnections ::
  "size_t \<Rightarrow> ptr option \<Rightarrow> ptr option \<Rightarrow> ptr option \<Rightarrow> ptr option \<Rightarrow> ptr option \<Rightarrow> ptr option
     \<Rightarrow> Worker \<Rightarrow> Worker" where
  "Worker_setupConnections newWorkerUUID newWorkerControllerContext newWorkerController
       newProcessorContext newProcessor newWorkDone newResultCalculated w =
     w \<lparr> workerControllerContext := newWorkerControllerContext,
         processorContext := newProcessorContext,
         workerUUID := (if newWorkerUUID \<noteq> 0 then newWorkerUUID else workerUUID w),
         workerController := orKeep newWorkerController (workerController w),
         processor := orKeep newProcessor (processor w),
         workDone := orKeep newWorkDone (workDone w),
         resultCalculated := orKeep newResultCalculated (resultCalculated w) \<rparr>"

text \<open>
  The fields \<^verbatim>\<open>workerControllerContext\<close> and \<^verbatim>\<open>workerController\<close> of \<^verbatim>\<open>Processor\<close>
  carry the prefix \<open>p_\<close>, the names being taken by the fields of \<^verbatim>\<open>Worker\<close>.
\<close>

record Processor =
  p_workerControllerContext :: "ptr option"
  p_workerController :: "ptr option"
  setNumberOfThreadsPtr :: "ptr option"
  clearQueuePtr :: "ptr option"
  extendQueuePtr :: "ptr option"

definition Processor_setupConnections ::
  "ptr option \<Rightarrow> ptr option \<Rightarrow> ptr option \<Rightarrow> ptr option \<Rightarrow> ptr option
     \<Rightarrow> Processor \<Rightarrow> Processor" where
  "Processor_setupConnections newWorkerControllerContext newWorkerController
       newSetNumberOfThreadsPtr newClearQueuePtr newExtendQueuePtr p =
     p \<lparr> p_workerControllerContext := newWorkerControllerContext,
         p_workerController := orKeep newWorkerController (p_workerController p),
         setNumberOfThreadsPtr := orKeep newSetNumberOfThreadsPtr (setNumberOfThreadsPtr p),
         clearQueuePtr := orKeep newClearQueuePtr (clearQueuePtr p),
         extendQueuePtr := orKeep newExtendQueuePtr (extendQueuePtr p) \<rparr>"

text \<open>A worker and a processor as \<^verbatim>\<open>WorkerController\<close> wires them (all fields set).\<close>

definition wiredWorker :: Worker where
  "wiredWorker = Worker_setupConnections 1 (Some 10) (Some 10) (Some 20) (Some 20) (Some 30) (Some 31)
     (newWorker 7)"

definition wiredProcessor :: Processor where
  "wiredProcessor = Processor_setupConnections (Some 10) (Some 10) (Some 40) (Some 41) (Some 42)
     \<lparr> p_workerControllerContext = None, p_workerController = None,
       setNumberOfThreadsPtr = None, clearQueuePtr = None, extendQueuePtr = None \<rparr>"

section \<open>Magic.h: the connection tables\<close>

text \<open>
  A \<^verbatim>\<open>void*\<close> slot identity is a \<open>ptr option\<close> (\<^verbatim>\<open>functionToPointer\<close> reinterprets the
  function pointer, \<^verbatim>\<open>nullptr\<close> included). A row of \<^verbatim>\<open>Signal::connectedSlots\<close> is the
  tuple of the slot identity and the invoker closure; the closure is represented by the
  connection type it captured (its other captures are the receiver, which is the key of the
  row, the function, which is the slot, and the signal, which owns the table).
  An \<^verbatim>\<open>unordered_map\<close> is an association list with distinct keys.
\<close>

type_synonym slot = "ptr option"
type_synonym connection = "slot \<times> ConnectionType"
type_synonym forwardTable = "(ptr \<times> connection list) list"
type_synonym inverseTable = "(slot \<times> ptr list) list"

record Dispatch =
  connectedSlots :: "ptr \<Rightarrow> forwardTable"
  slotsToConnectedSignals :: "ptr \<Rightarrow> inverseTable"
  signalSenders :: "ptr \<Rightarrow> QThread \<Rightarrow> ptr list option"
  thread :: "ptr \<Rightarrow> QThread"

definition functionToPointer :: "ptr option \<Rightarrow> slot" where
  "functionToPointer f = f"

text \<open>The loop \<^verbatim>\<open>for (it = v.begin(); it != v.end(); ++it) if (match) { v.erase(it); break; }\<close>.\<close>

fun eraseFirst :: "('a \<Rightarrow> bool) \<Rightarrow> 'a list \<Rightarrow> 'a list" where
  "eraseFirst P [] = []"
| "eraseFirst P (x # xs) = (if P x then xs else x # eraseFirst P xs)"

definition disconnectLocalInSignal :: "slot \<Rightarrow> ptr option \<Rightarrow> forwardTable \<Rightarrow> forwardTable" where
  "disconnectLocalInSignal slot slotProvider tbl =
     (case (slot, slotProvider) of
        (None, None) \<Rightarrow> []
      | (None, Some sp) \<Rightarrow> AList.delete sp tbl
      | (Some s, None) \<Rightarrow> map (\<lambda>(k, rows). (k, eraseFirst (\<lambda>r. fst r = Some s) rows)) tbl
      | (Some s, Some sp) \<Rightarrow>
          (case map_of tbl sp of
             None \<Rightarrow> tbl
           | Some rows \<Rightarrow> AList.update sp (eraseFirst (\<lambda>r. fst r = Some s) rows) tbl))"

definition disconnectLocalInSlotProvider :: "slot \<Rightarrow> ptr option \<Rightarrow> inverseTable \<Rightarrow> inverseTable" where
  "disconnectLocalInSlotProvider slot signalProvider tbl =
     (case (slot, signalProvider) of
        (None, None) \<Rightarrow> []
      | (Some s, None) \<Rightarrow> AList.delete (Some s) tbl
      | (None, Some sg) \<Rightarrow> map (\<lambda>(k, sigs). (k, eraseFirst (\<lambda>x. x = sg) sigs)) tbl
      | (Some s, Some sg) \<Rightarrow>
          (case map_of tbl (Some s) of
             None \<Rightarrow> tbl
           | Some sigs \<Rightarrow> AList.update (Some s) (eraseFirst (\<lambda>x. x = sg) sigs) tbl))"

definition getConnectedSignals :: "inverseTable \<Rightarrow> ptr list" where
  "getConnectedSignals tbl = remdups (concat (map snd tbl))"

definition getConnectedSlots :: "forwardTable \<Rightarrow> ptr list" where
  "getConnectedSlots tbl = remdups (map fst tbl)"

definition registerConnection :: "slot \<Rightarrow> ptr \<Rightarrow> inverseTable \<Rightarrow> inverseTable" where
  "registerConnection slot signalProvider tbl =
     (case map_of tbl slot of
        Some sigs \<Rightarrow> AList.update slot (sigs @ [signalProvider]) tbl
      | None \<Rightarrow> AList.update slot [signalProvider] tbl)"

definition connectionExists :: "ptr \<Rightarrow> slot \<Rightarrow> forwardTable \<Rightarrow> bool" where
  "connectionExists slotProvider slot tbl =
     (case map_of tbl slotProvider of
        Some toInvokeTuples \<Rightarrow> slot \<in> set (map fst toInvokeTuples)
      | None \<Rightarrow> False)"

text \<open>
  The member functions, acting on the object \<open>this\<close> in the store of all endpoints. A
  \<^verbatim>\<open>Signal\<close> is a \<^verbatim>\<open>SignalProvider\<close> and a \<^verbatim>\<open>SlotProvider\<close>: one object with both
  tables. The \<open>context\<close> of \<^verbatim>\<open>registerSlot\<close> is an object, not \<^verbatim>\<open>nullptr\<close>:
  \<^verbatim>\<open>appendConnection\<close> calls a member function on it.
\<close>

definition inSignal :: "ptr \<Rightarrow> slot \<Rightarrow> ptr option \<Rightarrow> Dispatch \<Rightarrow> Dispatch" where
  "inSignal this slot slotProvider st =
     st \<lparr> connectedSlots := (connectedSlots st)
            (this := disconnectLocalInSignal slot slotProvider (connectedSlots st this)) \<rparr>"

definition inSlotProvider :: "ptr \<Rightarrow> slot \<Rightarrow> ptr option \<Rightarrow> Dispatch \<Rightarrow> Dispatch" where
  "inSlotProvider this slot signalProvider st =
     st \<lparr> slotsToConnectedSignals := (slotsToConnectedSignals st)
            (this := disconnectLocalInSlotProvider slot signalProvider (slotsToConnectedSignals st this)) \<rparr>"

definition appendConnection :: "ptr \<Rightarrow> ptr \<Rightarrow> slot \<Rightarrow> ConnectionType \<Rightarrow> Dispatch \<Rightarrow> Dispatch" where
  "appendConnection this slotProvider slot functionToAppend st =
     (let tbl = connectedSlots st this;
          tbl' = (case map_of tbl slotProvider of
                    Some rows \<Rightarrow> AList.update slotProvider (rows @ [(slot, functionToAppend)]) tbl
                  | None \<Rightarrow> AList.update slotProvider [(slot, functionToAppend)] tbl)
      in st \<lparr> connectedSlots := (connectedSlots st)(this := tbl'),
              slotsToConnectedSignals := (slotsToConnectedSignals st)
                (slotProvider := registerConnection slot this (slotsToConnectedSignals st slotProvider)) \<rparr>)"

definition registerSlot :: "ptr \<Rightarrow> ptr \<Rightarrow> ptr option \<Rightarrow> ConnectionType \<Rightarrow> Dispatch \<Rightarrow> Dispatch" where
  "registerSlot this context f connectionType st =
     (let slot = functionToPointer f in
      if connectionExists context slot (connectedSlots st this) then st
      else appendConnection this context slot connectionType st)"

definition disconnect :: "slot \<Rightarrow> ptr option \<Rightarrow> ptr option \<Rightarrow> Dispatch \<Rightarrow> Dispatch" where
  "disconnect slot signalProvider slotProvider st =
     (case (signalProvider, slotProvider) of
        (None, None) \<Rightarrow> st
      | (Some sg, Some sp) \<Rightarrow> inSlotProvider sp slot (Some sg) (inSignal sg slot (Some sp) st)
      | (None, Some sp) \<Rightarrow>
          inSlotProvider sp slot None
            (fold (\<lambda>connectedSignal. inSignal connectedSignal slot (Some sp))
               (getConnectedSignals (slotsToConnectedSignals st sp)) st)
      | (Some sg, None) \<Rightarrow>
          inSignal sg slot None
            (fold (\<lambda>connectedSlot. inSlotProvider connectedSlot slot (Some sg))
               (getConnectedSlots (connectedSlots st sg)) st))"

text \<open>
  The lifetime of the endpoints: the tables, and the objects whose destructor has returned. A
  call of a member function on such an object is undefined behaviour: \<open>None\<close>.
\<close>

record Objects =
  tables :: Dispatch
  destroyed :: "ptr list"

definition alive :: "Objects \<Rightarrow> ptr list \<Rightarrow> bool" where
  "alive h objects \<longleftrightarrow> set objects \<inter> set (destroyed h) = {}"

text \<open>
  The objects on which \<^verbatim>\<open>disconnect\<close> calls a member function: both arguments when both
  are given; otherwise the one given, for \<^verbatim>\<open>getConnectedSignals\<close> or
  \<^verbatim>\<open>getConnectedSlots\<close> and for its own table, and every object these return.
\<close>

definition disconnectTargets :: "ptr option \<Rightarrow> ptr option \<Rightarrow> Dispatch \<Rightarrow> ptr list" where
  "disconnectTargets signalProvider slotProvider st =
     (case (signalProvider, slotProvider) of
        (None, None) \<Rightarrow> []
      | (Some sg, Some sp) \<Rightarrow> [sg, sp]
      | (None, Some sp) \<Rightarrow> sp # getConnectedSignals (slotsToConnectedSignals st sp)
      | (Some sg, None) \<Rightarrow> sg # getConnectedSlots (connectedSlots st sg))"

definition disconnectCall :: "slot \<Rightarrow> ptr option \<Rightarrow> ptr option \<Rightarrow> Objects \<Rightarrow> Objects option" where
  "disconnectCall slot signalProvider slotProvider h =
     (if alive h (disconnectTargets signalProvider slotProvider (tables h))
      then Some (h \<lparr> tables := disconnect slot signalProvider slotProvider (tables h) \<rparr>)
      else None)"

text \<open>
  \<^verbatim>\<open>registerSlot\<close> is a member function of the signal, and \<^verbatim>\<open>appendConnection\<close> calls
  \<^verbatim>\<open>registerConnection\<close> on the context.
\<close>

definition registerSlotCall :: "ptr \<Rightarrow> ptr \<Rightarrow> ptr option \<Rightarrow> ConnectionType \<Rightarrow> Objects \<Rightarrow> Objects option" where
  "registerSlotCall this context f connectionType h =
     (if alive h (this # (if connectionExists context (functionToPointer f) (connectedSlots (tables h) this)
                          then [] else [context]))
      then Some (h \<lparr> tables := registerSlot this context f connectionType (tables h) \<rparr>)
      else None)"

text \<open>
  \<^verbatim>\<open>~SlotProvider\<close>, and \<^verbatim>\<open>~Signal\<close>, whose body runs before the destructor of its base
  class \<^verbatim>\<open>SlotProvider\<close>. The object is destroyed when its destructor has returned.
\<close>

definition destroySlotProvider :: "ptr \<Rightarrow> Objects \<Rightarrow> Objects option" where
  "destroySlotProvider this h =
     (case disconnectCall None None (Some this) h of
        None \<Rightarrow> None
      | Some h' \<Rightarrow> Some (h' \<lparr> destroyed := this # destroyed h' \<rparr>))"

definition destroySignal :: "ptr \<Rightarrow> Objects \<Rightarrow> Objects option" where
  "destroySignal this h =
     (case disconnectCall None (Some this) None h of
        None \<Rightarrow> None
      | Some h' \<Rightarrow> destroySlotProvider this h')"

text \<open>
  \<^verbatim>\<open>Signal::operator()\<close> calls the invoker of every row; the model lists the deliveries it
  makes, each the receiver, the slot and the connection type handed to \<^verbatim>\<open>invokeInContext\<close>.
\<close>

definition emit :: "ptr \<Rightarrow> Dispatch \<Rightarrow> (ptr \<times> slot \<times> ConnectionType) list" where
  "emit this st =
     concat (map (\<lambda>(receiver, rows). map (\<lambda>(slot, ct). (receiver, slot, ct)) rows)
               (connectedSlots st this))"

text \<open>The rows of one receiver in a forward table, and the signals of one slot in an inverse table.\<close>

definition rowsOf :: "('k \<times> 'v list) list \<Rightarrow> 'k \<Rightarrow> 'v list" where
  "rowsOf tbl k = (case map_of tbl k of None \<Rightarrow> [] | Some v \<Rightarrow> v)"

definition forwardRows :: "Dispatch \<Rightarrow> ptr \<Rightarrow> ptr \<Rightarrow> slot \<Rightarrow> nat" where
  "forwardRows st emitter receiver slot =
     count_list (map fst (rowsOf (connectedSlots st emitter) receiver)) slot"

definition inverseRows :: "Dispatch \<Rightarrow> ptr \<Rightarrow> ptr \<Rightarrow> slot \<Rightarrow> nat" where
  "inverseRows st emitter receiver slot =
     count_list (rowsOf (slotsToConnectedSignals st receiver) slot) emitter"

definition emptyDispatch :: Dispatch where
  "emptyDispatch = \<lparr> connectedSlots = (\<lambda>_. []), slotsToConnectedSignals = (\<lambda>_. []),
     signalSenders = (\<lambda>_ _. None), thread = (\<lambda>_. 0) \<rparr>"

section \<open>Magic.h: the sender stacks\<close>









section \<open>WorkerController.h\<close>

text \<open>
  A tuple of \<^verbatim>\<open>WorkerController::threads\<close> (thread, worker, id) is represented by its
  \<^verbatim>\<open>QUuid\<close>: thread and worker are created together with the id and live as long as the
  tuple, and a call posted to the worker of the tuple is addressed by the id.
  The \<^verbatim>\<open>std::set\<close> of ready indices is the list of its elements in increasing order, so
  that \<^verbatim>\<open>begin()\<close> is the head. Reading \<^verbatim>\<open>threads[i]\<close> out of range is undefined
  behaviour: \<open>None\<close>.
\<close>

record 't WorkerController =
  threads :: "QUuid list"
  tasks :: "'t list"
  workersReady :: "nat list"
  isInDestructor :: bool

text \<open>
  What the controller does to its environment: it stops the thread of a worker, it clones
  the prototype into a new worker (whose \<^verbatim>\<open>setupConnections\<close> receives the worker ID),
  and it posts \<^verbatim>\<open>Worker::receiveTask\<close> to a worker's thread (\<^verbatim>\<open>Qt::QueuedConnection\<close>).
\<close>

datatype 't effect = Quit QUuid | Clone QUuid size_t | ReceiveTask QUuid 't

definition set_insert :: "nat \<Rightarrow> nat list \<Rightarrow> nat list" where
  "set_insert x xs = (if x \<in> set xs then xs else insort x xs)"

definition set_erase :: "nat \<Rightarrow> nat list \<Rightarrow> nat list" where
  "set_erase x xs = removeAll x xs"

fun checkTasks_loop ::
  "QUuid list \<Rightarrow> 't list \<Rightarrow> nat list \<Rightarrow> ('t list \<times> nat list \<times> 't effect list) option" where
  "checkTasks_loop thr (task # rest) (threadIndex # ready) =
     (if threadIndex < length thr
      then map_option (\<lambda>(ts, rdy, es). (ts, rdy, ReceiveTask (thr ! threadIndex) task # es))
             (checkTasks_loop thr rest ready)
      else None)"
| "checkTasks_loop thr ts ready = Some (ts, ready, [])"

definition checkTasks :: "'t WorkerController \<Rightarrow> ('t WorkerController \<times> 't effect list) option" where
  "checkTasks s =
     map_option (\<lambda>(ts, rdy, es). (s \<lparr> tasks := ts, workersReady := rdy \<rparr>, es))
       (checkTasks_loop (threads s) (tasks s) (workersReady s))"

definition clearQueue :: "'t WorkerController \<Rightarrow> 't WorkerController" where
  "clearQueue s = (if \<not> isInDestructor s then s \<lparr> tasks := [] \<rparr> else s)"

definition extendQueue ::
  "'t list \<Rightarrow> 't WorkerController \<Rightarrow> ('t WorkerController \<times> 't effect list) option" where
  "extendQueue newTasks s =
     (if \<not> isInDestructor s then checkTasks (s \<lparr> tasks := tasks s @ newTasks \<rparr>)
      else Some (s, []))"

definition workerFinished ::
  "size_t \<Rightarrow> QUuid \<Rightarrow> 't WorkerController \<Rightarrow> ('t WorkerController \<times> 't effect list) option" where
  "workerFinished workerID workerUuid s =
     (let threadIndex = workerID - 1 in
      if unat threadIndex < length (threads s) \<and> workerUuid = threads s ! unat threadIndex
      then checkTasks (s \<lparr> workersReady := set_insert (unat threadIndex) (workersReady s) \<rparr>)
      else Some (s, []))"

text \<open>
  The loop of the shrinking branch, \<^verbatim>\<open>for (i = current - 1; i >= numberOfThreads; --i)\<close>.
  At \<open>i = 0\<close> the decrement wraps around and the next iteration reads \<^verbatim>\<open>threads\<close> out of
  range.
\<close>

function shrinkLoop ::
  "nat \<Rightarrow> nat \<Rightarrow> QUuid list \<Rightarrow> nat list \<Rightarrow> (QUuid list \<times> nat list \<times> 't effect list) option" where
  "shrinkLoop currentThreadIndex numberOfThreads thr ready =
     (if currentThreadIndex \<ge> numberOfThreads then
        (if currentThreadIndex < length thr then
           (if currentThreadIndex = 0 then None
            else map_option (\<lambda>(thr', rdy', es). (thr', rdy', Quit (thr ! currentThreadIndex) # es))
                   (shrinkLoop (currentThreadIndex - 1) numberOfThreads (butlast thr)
                      (set_erase currentThreadIndex ready)))
         else None)
      else Some (thr, ready, []))"
  by pat_completeness auto
termination
  by (relation "measure (\<lambda>(i, n, thr, ready). i)") auto

text \<open>
  The loop of the growing branch, \<^verbatim>\<open>for (i = current; i < numberOfThreads; ++i)\<close>.
  \<^verbatim>\<open>QUuid::createUuid()\<close> never returns an id twice: it is a counter, threaded through.
\<close>

function growLoop ::
  "nat \<Rightarrow> nat \<Rightarrow> QUuid \<Rightarrow> QUuid list \<Rightarrow> nat list \<Rightarrow> QUuid \<times> QUuid list \<times> nat list \<times> 't effect list" where
  "growLoop currentThreadIndex numberOfThreads createUuid thr ready =
     (if currentThreadIndex < numberOfThreads then
        (case growLoop (Suc currentThreadIndex) numberOfThreads (Suc createUuid)
                (thr @ [createUuid]) (set_insert currentThreadIndex ready) of
           (createUuid', thr', rdy', es) \<Rightarrow>
             (createUuid', thr', rdy', Clone createUuid (word_of_nat currentThreadIndex + 1) # es))
      else (createUuid, thr, ready, []))"
  by pat_completeness auto
termination
  by (relation "measure (\<lambda>(i, n, u, thr, ready). n - i)") auto

declare shrinkLoop.simps [simp del] growLoop.simps [simp del]

definition setNumberOfThreads ::
  "size_t \<Rightarrow> QUuid \<Rightarrow> 't WorkerController \<Rightarrow> ('t WorkerController \<times> QUuid \<times> 't effect list) option" where
  "setNumberOfThreads numberOfThreads createUuid s =
     (let currentNumberOfThreads = length (threads s) in
      if numberOfThreads = 0 then
        Some (s \<lparr> threads := [], workersReady := [] \<rparr>, createUuid, map Quit (threads s))
      else if unat numberOfThreads < currentNumberOfThreads then
        map_option (\<lambda>(thr, rdy, es). (s \<lparr> threads := thr, workersReady := rdy \<rparr>, createUuid, es))
          (shrinkLoop (currentNumberOfThreads - 1) (unat numberOfThreads) (threads s) (workersReady s))
      else if \<not> isInDestructor s \<and> unat numberOfThreads > currentNumberOfThreads then
        (case growLoop currentNumberOfThreads (unat numberOfThreads) createUuid
                (threads s) (workersReady s) of
           (createUuid', thr, rdy, es) \<Rightarrow>
             map_option (\<lambda>(s', es'). (s', createUuid', es @ es'))
               (checkTasks (s \<lparr> threads := thr, workersReady := rdy \<rparr>)))
      else Some (s, createUuid, []))"

definition newController :: "'t WorkerController" where
  "newController = \<lparr> threads = [], tasks = [], workersReady = [], isInDestructor = False \<rparr>"

section \<open>The controller among its workers\<close>

text \<open>
  The controller runs in one thread and every worker in a thread of its own; they interact
  through the calls posted to each other's event loops only. The world holds the controller,
  the counter of \<^verbatim>\<open>QUuid::createUuid()\<close>, the field \<^verbatim>\<open>Worker::workerUUID\<close> of every
  worker, the \<^verbatim>\<open>receiveTask\<close> calls pending in every worker's event loop and the
  \<^verbatim>\<open>workerFinished\<close> calls pending in the controller's event loop, oldest first.
\<close>

record 't World =
  controller :: "'t WorkerController"
  nextUuid :: QUuid
  workerIDs :: "QUuid \<Rightarrow> size_t"
  eventLoop :: "QUuid \<Rightarrow> 't list"
  finished :: "(size_t \<times> QUuid) list"

text \<open>
  Stopping a thread discards the calls still pending in its event loop; a cloned worker
  starts with its worker ID and an empty event loop; a posted call is queued behind the others.
\<close>

fun applyEffect :: "'t effect \<Rightarrow> 't World \<Rightarrow> 't World" where
  "applyEffect (Quit u) w = w \<lparr> eventLoop := (eventLoop w)(u := []) \<rparr>"
| "applyEffect (Clone u wid) w =
     w \<lparr> workerIDs := (workerIDs w)(u := wid), eventLoop := (eventLoop w)(u := []) \<rparr>"
| "applyEffect (ReceiveTask u task) w = w \<lparr> eventLoop := (eventLoop w)(u := eventLoop w u @ [task]) \<rparr>"

text \<open>
  \<^verbatim>\<open>Worker::receiveTask\<close>, run by the event loop of worker \<open>u\<close> on its oldest pending call:
  after the task is fulfilled, \<^verbatim>\<open>workDone\<close> is posted to the controller with the worker's
  \<^verbatim>\<open>workerUUID\<close> and \<^verbatim>\<open>uniqueWorkerUUID\<close>.
\<close>

definition receiveTask :: "QUuid \<Rightarrow> 't World \<Rightarrow> 't World" where
  "receiveTask u w =
     (case eventLoop w u of
        [] \<Rightarrow> w
      | task # rest \<Rightarrow>
          w \<lparr> eventLoop := (eventLoop w)(u := rest), finished := finished w @ [(workerIDs w u, u)] \<rparr>)"

text \<open>
  The steps of the world: the four calls the processor makes on the controller, the
  controller's event loop delivering the oldest pending \<^verbatim>\<open>workerFinished\<close> call, and the
  event loop of a worker running its oldest pending \<^verbatim>\<open>receiveTask\<close> call. The events of a
  run may come in any order.
\<close>

datatype 't event =
  SetNumberOfThreads size_t | ExtendQueue "'t list" | ClearQueue | CheckTasks
| WorkerFinished | ReceiveTaskBy QUuid

definition withEffects :: "'t World \<Rightarrow> 't WorkerController \<times> 't effect list \<Rightarrow> 't World" where
  "withEffects w r = fold applyEffect (snd r) (w \<lparr> controller := fst r \<rparr>)"

fun step :: "'t event \<Rightarrow> 't World \<Rightarrow> 't World option" where
  "step (SetNumberOfThreads n) w =
     map_option (\<lambda>(s, u, es). withEffects (w \<lparr> nextUuid := u \<rparr>) (s, es))
       (setNumberOfThreads n (nextUuid w) (controller w))"
| "step (ExtendQueue newTasks) w = map_option (withEffects w) (extendQueue newTasks (controller w))"
| "step ClearQueue w = Some (w \<lparr> controller := clearQueue (controller w) \<rparr>)"
| "step CheckTasks w = map_option (withEffects w) (checkTasks (controller w))"
| "step WorkerFinished w =
     (case finished w of
        [] \<Rightarrow> Some w
      | (wid, u) # rest \<Rightarrow>
          map_option (withEffects (w \<lparr> finished := rest \<rparr>)) (workerFinished wid u (controller w)))"
| "step (ReceiveTaskBy u) w = Some (receiveTask u w)"

fun run :: "'t event list \<Rightarrow> 't World \<Rightarrow> 't World option" where
  "run [] w = Some w"
| "run (e # es) w = (case step e w of None \<Rightarrow> None | Some w' \<Rightarrow> run es w')"

definition newWorld :: "'t World" where
  "newWorld = \<lparr> controller = newController, nextUuid = 0, workerIDs = (\<lambda>_. 0),
     eventLoop = (\<lambda>_. []), finished = [] \<rparr>"

text \<open>
  The tasks handed to worker \<open>u\<close> that the controller has not yet seen finished: those
  pending in the worker's event loop and those whose \<^verbatim>\<open>workerFinished\<close> call is pending.
\<close>

definition outstanding :: "'t World \<Rightarrow> QUuid \<Rightarrow> nat" where
  "outstanding w u = length (eventLoop w u) + length (filter (\<lambda>e. snd e = u) (finished w))"

section \<open>Reachable connection tables\<close>

text \<open>
  The operations a program can perform on the connection tables, what each does to the tables
  (a destructor by the calls of \<^verbatim>\<open>disconnect\<close> it makes, \<^verbatim>\<open>~Signal\<close> its own and then the one
  of its base class), and the state they lead to from a program start, where no endpoint has a
  connection.
\<close>

datatype dispatchOp =
  RegisterSlot ptr ptr "ptr option" ConnectionType
| Disconnect slot "ptr option" "ptr option"
| DestroySignal ptr
| DestroySlotProvider ptr

fun perform :: "dispatchOp \<Rightarrow> Dispatch \<Rightarrow> Dispatch" where
  "perform (RegisterSlot signal context f connectionType) st = registerSlot signal context f connectionType st"
| "perform (Disconnect slot signalProvider slotProvider) st = disconnect slot signalProvider slotProvider st"
| "perform (DestroySignal signal) st =
     disconnect None None (Some signal) (disconnect None (Some signal) None st)"
| "perform (DestroySlotProvider slotProvider) st = disconnect None None (Some slotProvider) st"

definition reached :: "dispatchOp list \<Rightarrow> Dispatch" where
  "reached ops = fold perform ops emptyDispatch"

text \<open>
  The same operations with the lifetime of the objects: a program run is a list of operations
  none of which calls a member function on a destroyed object. Its tables are the ones that
  \<open>perform\<close> gives.
\<close>

fun execute :: "dispatchOp \<Rightarrow> Objects \<Rightarrow> Objects option" where
  "execute (RegisterSlot signal context f connectionType) h =
     registerSlotCall signal context f connectionType h"
| "execute (Disconnect slot signalProvider slotProvider) h =
     disconnectCall slot signalProvider slotProvider h"
| "execute (DestroySignal signal) h = destroySignal signal h"
| "execute (DestroySlotProvider slotProvider) h = destroySlotProvider slotProvider h"

fun executeAll :: "dispatchOp list \<Rightarrow> Objects \<Rightarrow> Objects option" where
  "executeAll [] h = Some h"
| "executeAll (c # cs) h = (case execute c h of None \<Rightarrow> None | Some h' \<Rightarrow> executeAll cs h')"

definition newObjects :: Objects where
  "newObjects = \<lparr> tables = emptyDispatch, destroyed = [] \<rparr>"

text \<open>
  Signal 1 connects slot 3 of receiver 2, the connection is removed by a \<^verbatim>\<open>disconnect\<close> of
  that slot, and the receiver is destroyed.
\<close>

definition staleKeyExample :: "dispatchOp list" where
  "staleKeyExample =
     [RegisterSlot 1 2 (Some 3) AutoConnection,
      Disconnect (Some 3) (Some 1) (Some 2),
      DestroySlotProvider 2]"

text \<open>A call of \<^verbatim>\<open>registerSlot\<close> or of \<^verbatim>\<open>disconnect\<close> for one emitter, receiver and slot.\<close>

datatype pairCall = CallRegisterSlot ConnectionType | CallDisconnect

fun callOnPair :: "ptr \<Rightarrow> ptr \<Rightarrow> ptr option \<Rightarrow> pairCall \<Rightarrow> Dispatch \<Rightarrow> Dispatch" where
  "callOnPair emitter receiver f (CallRegisterSlot connectionType) st =
     registerSlot emitter receiver f connectionType st"
| "callOnPair emitter receiver f CallDisconnect st =
     disconnect (functionToPointer f) (Some emitter) (Some receiver) st"

text \<open>Signal 1 connected to slot 3 of receiver 2.\<close>

definition connectedExample :: Dispatch where
  "connectedExample = registerSlot 1 2 (Some 3) AutoConnection emptyDispatch"

text \<open>
  The two tables agree: a connection is in the forward table of its emitter as often as in
  the inverse table of its receiver, and at most once; the keys of a forward table are distinct.
\<close>

definition consistent :: "Dispatch \<Rightarrow> bool" where
  "consistent st \<longleftrightarrow>
     (\<forall>E R s. forwardRows st E R s = inverseRows st E R s \<and> forwardRows st E R s \<le> 1) \<and>
     (\<forall>E. distinct (map fst (connectedSlots st E)))"

text \<open>A \<^verbatim>\<open>nullptr\<close> argument of \<^verbatim>\<open>disconnect\<close> matches every entry.\<close>

definition wild :: "'a option \<Rightarrow> 'a \<Rightarrow> bool" where
  "wild pattern x \<longleftrightarrow> pattern = None \<or> pattern = Some x"

section \<open>Observations on the controller\<close>

text \<open>The tasks handed out by a list of effects, in order, and the workers they went to.\<close>

fun dispatched :: "'t effect list \<Rightarrow> 't list" where
  "dispatched [] = []"
| "dispatched (ReceiveTask u t # es) = t # dispatched es"
| "dispatched (e # es) = dispatched es"

fun receivers :: "'t effect list \<Rightarrow> QUuid list" where
  "receivers [] = []"
| "receivers (ReceiveTask u t # es) = u # receivers es"
| "receivers (e # es) = receivers es"

text \<open>
  A worker is retired when its id has been issued and it is not among the current workers.
\<close>

definition retired :: "'t World \<Rightarrow> QUuid \<Rightarrow> bool" where
  "retired w u \<longleftrightarrow> u < nextUuid w \<and> u \<notin> set (threads (controller w))"

text \<open>
  The invariant of the controller among its workers: the ready set is an increasing list of
  valid indices; the ids of the workers are distinct and were issued; the vector fits
  \<^verbatim>\<open>size_t\<close>; every worker carries its index plus one as worker ID; a ready worker has
  no outstanding task and every other worker exactly one; every pending notification carries
  the worker ID of its sender; no call is pending for an id not yet issued.
\<close>

definition sound :: "'t World \<Rightarrow> bool" where
  "sound w \<longleftrightarrow>
     sorted (workersReady (controller w)) \<and> distinct (workersReady (controller w)) \<and>
     (\<forall>i\<in>set (workersReady (controller w)). i < length (threads (controller w))) \<and>
     distinct (threads (controller w)) \<and>
     (\<forall>u\<in>set (threads (controller w)). u < nextUuid w) \<and>
     length (threads (controller w)) < 2 ^ 64 \<and>
     (\<forall>i<length (threads (controller w)).
        workerIDs w (threads (controller w) ! i) = word_of_nat (Suc i)) \<and>
     (\<forall>i<length (threads (controller w)).
        outstanding w (threads (controller w) ! i)
          = (if i \<in> set (workersReady (controller w)) then 0 else 1)) \<and>
     (\<forall>e\<in>set (finished w). fst e = workerIDs w (snd e) \<and> snd e < nextUuid w) \<and>
     (\<forall>u. nextUuid w \<le> u \<longrightarrow> eventLoop w u = [])"

text \<open>
  Two workers with three tasks waiting; a controller after a resize, whose worker at index 1
  replaced the retired worker 1; and the events leading to such a state: three workers get
  three of four tasks, worker 1 finishes, the pool shrinks to one worker and grows to two.
\<close>

definition fifoExample :: "nat WorkerController" where
  "fifoExample = \<lparr> threads = [10, 11], tasks = [1, 2, 3], workersReady = [0, 1], isInDestructor = False \<rparr>"

definition resizedExample :: "nat WorkerController" where
  "resizedExample = \<lparr> threads = [0, 3], tasks = [], workersReady = [], isInDestructor = False \<rparr>"

definition retireEvents :: "nat event list" where
  "retireEvents = [SetNumberOfThreads 3, ExtendQueue [7, 8, 9, 10], ReceiveTaskBy 1,
     SetNumberOfThreads 1]"

definition resizeEvents :: "nat event list" where
  "resizeEvents = retireEvents @ [SetNumberOfThreads 2]"

section \<open>Properties of setupConnections\<close>

text \<open>
  Claim C9, as stated: a call of \<^verbatim>\<open>setupConnections\<close> with all-default arguments leaves
  every stored field unchanged. It fails on a wired worker and on a wired processor: the two
  context fields are assigned unconditionally.
\<close>

theorem setupConnections_all_default_counterexample:
  "Worker_setupConnections 0 None None None None None None wiredWorker \<noteq> wiredWorker \<and>
   Processor_setupConnections None None None None None wiredProcessor \<noteq> wiredProcessor"
  by (simp add: wiredWorker_def wiredProcessor_def Worker_setupConnections_def
      Processor_setupConnections_def newWorker_def orKeep_def)

text \<open>
  Claim C9, amended: \<^verbatim>\<open>Worker::setupConnections\<close> and \<^verbatim>\<open>Processor::setupConnections\<close>
  always store the context parameters (\<^verbatim>\<open>workerControllerContext\<close>, \<^verbatim>\<open>processorContext\<close>),
  null included; every other parameter replaces its field when it is non-null (non-zero for the
  worker ID) and leaves it unchanged when it is null (zero); \<^verbatim>\<open>uniqueWorkerUUID\<close> is never
  changed. A call with all-default arguments therefore resets the context fields to null and
  leaves every other field unchanged.
\<close>

theorem setupConnections_fields:
  "workerControllerContext (Worker_setupConnections i cc c pc p wd rc w) = cc \<and>
   processorContext (Worker_setupConnections i cc c pc p wd rc w) = pc \<and>
   workerUUID (Worker_setupConnections i cc c pc p wd rc w) = (if i = 0 then workerUUID w else i) \<and>
   workerController (Worker_setupConnections i cc c pc p wd rc w)
     = (case c of None \<Rightarrow> workerController w | Some x \<Rightarrow> Some x) \<and>
   processor (Worker_setupConnections i cc c pc p wd rc w)
     = (case p of None \<Rightarrow> processor w | Some x \<Rightarrow> Some x) \<and>
   workDone (Worker_setupConnections i cc c pc p wd rc w)
     = (case wd of None \<Rightarrow> workDone w | Some x \<Rightarrow> Some x) \<and>
   resultCalculated (Worker_setupConnections i cc c pc p wd rc w)
     = (case rc of None \<Rightarrow> resultCalculated w | Some x \<Rightarrow> Some x) \<and>
   uniqueWorkerUUID (Worker_setupConnections i cc c pc p wd rc w) = uniqueWorkerUUID w \<and>
   Worker_setupConnections 0 None None None None None None w
     = w \<lparr> workerControllerContext := None, processorContext := None \<rparr> \<and>
   p_workerControllerContext (Processor_setupConnections cc c sn cq eq q) = cc \<and>
   p_workerController (Processor_setupConnections cc c sn cq eq q)
     = (case c of None \<Rightarrow> p_workerController q | Some x \<Rightarrow> Some x) \<and>
   setNumberOfThreadsPtr (Processor_setupConnections cc c sn cq eq q)
     = (case sn of None \<Rightarrow> setNumberOfThreadsPtr q | Some x \<Rightarrow> Some x) \<and>
   clearQueuePtr (Processor_setupConnections cc c sn cq eq q)
     = (case cq of None \<Rightarrow> clearQueuePtr q | Some x \<Rightarrow> Some x) \<and>
   extendQueuePtr (Processor_setupConnections cc c sn cq eq q)
     = (case eq of None \<Rightarrow> extendQueuePtr q | Some x \<Rightarrow> Some x) \<and>
   Processor_setupConnections None None None None None q = q \<lparr> p_workerControllerContext := None \<rparr>"
  by (simp add: Worker_setupConnections_def Processor_setupConnections_def orKeep_def)

section \<open>Properties of invokeInContext\<close>

text \<open>
  Claim C7, as stated: a blocking queued delivery to a receiver living in the calling thread
  is detected and rejected instead of being dispatched. It fails: with the caller in thread 1
  and the context in thread 1, the call is handed to the host like any other.
\<close>

theorem invokeInContext_blocking_same_thread_counterexample:
  "invokeInContext 1 1 5 BlockingQueuedConnection = InvokeMethod 5 ByReference BlockingQueuedConnection"
  by (simp add: invokeInContext_def)

text \<open>
  Claim C7, amended: \<^verbatim>\<open>invokeInContext\<close> makes no thread check for a blocking queued
  delivery: whatever the calling thread and the thread of the context are, it hands the call to
  the host's \<^verbatim>\<open>invokeMethod\<close> with the arguments captured by reference and the connection
  type unchanged, and returns the host's answer.
\<close>

theorem invokeInContext_blocking:
  "invokeInContext currentThread contextThread context BlockingQueuedConnection
     = InvokeMethod context ByReference BlockingQueuedConnection"
  by (simp add: invokeInContext_def)

section \<open>Properties of the connection tables\<close>

lemma rowsOf_update [simp]: "rowsOf (AList.update k v tbl) k' = (if k' = k then v else rowsOf tbl k')"
  by (simp add: rowsOf_def update_conv')

lemma rowsOf_delete [simp]: "rowsOf (AList.delete k tbl) k' = (if k' = k then [] else rowsOf tbl k')"
  by (simp add: rowsOf_def delete_conv')

lemma rowsOf_Nil [simp]: "rowsOf [] k = []"
  by (simp add: rowsOf_def)

lemma map_of_map_entries: "map_of (map (\<lambda>(k, v). (k, f v)) tbl) k = map_option f (map_of tbl k)"
  by (induction tbl) auto

lemma rowsOf_map_entries:
  "f [] = [] \<Longrightarrow> rowsOf (map (\<lambda>(k, v). (k, f v)) tbl) k = f (rowsOf tbl k)"
  by (simp add: rowsOf_def map_of_map_entries split: option.splits)

lemma eraseFirst_Nil_iff [simp]: "eraseFirst P [] = []"
  by simp

lemma rowsOf_disconnectLocalInSignal:
  "rowsOf (disconnectLocalInSignal slot sp tbl) R =
     (if sp = None \<or> sp = Some R
      then (case slot of None \<Rightarrow> [] | Some s \<Rightarrow> eraseFirst (\<lambda>r. fst r = Some s) (rowsOf tbl R))
      else rowsOf tbl R)"
  by (auto simp: disconnectLocalInSignal_def rowsOf_map_entries split: option.splits)
     (auto simp: rowsOf_def)

lemma rowsOf_disconnectLocalInSlotProvider:
  "rowsOf (disconnectLocalInSlotProvider slot sg tbl) s' =
     (if slot = None \<or> slot = s'
      then (case sg of None \<Rightarrow> [] | Some g \<Rightarrow> eraseFirst (\<lambda>x. x = g) (rowsOf tbl s'))
      else rowsOf tbl s')"
  by (auto simp: disconnectLocalInSlotProvider_def rowsOf_map_entries split: option.splits)
     (auto simp: rowsOf_def)

lemma count_eraseFirst_slot:
  "count_list (map fst (eraseFirst (\<lambda>r. fst r = s) rows)) s'
     = (if s' = s then count_list (map fst rows) s' - 1 else count_list (map fst rows) s')"
  by (induction rows) auto

lemma count_eraseFirst_eq:
  "count_list (eraseFirst (\<lambda>x. x = g) xs) g'
     = (if g' = g then count_list xs g' - 1 else count_list xs g')"
  by (induction xs) auto

lemma distinct_keys_disconnectLocalInSignal:
  "distinct (map fst tbl) \<Longrightarrow> distinct (map fst (disconnectLocalInSignal slot sp tbl))"
  by (auto simp: disconnectLocalInSignal_def distinct_update distinct_delete comp_def case_prod_unfold
      split: option.splits)

lemma distinct_keys_disconnectLocalInSlotProvider:
  "distinct (map fst tbl) \<Longrightarrow> distinct (map fst (disconnectLocalInSlotProvider slot sg tbl))"
  by (auto simp: disconnectLocalInSlotProvider_def distinct_update distinct_delete comp_def case_prod_unfold
      split: option.splits)

lemma fold_inSignal:
  "distinct gs \<Longrightarrow>
   connectedSlots (fold (\<lambda>g. inSignal g slot sp) gs st) E
     = (if E \<in> set gs then disconnectLocalInSignal slot sp (connectedSlots st E)
        else connectedSlots st E) \<and>
   slotsToConnectedSignals (fold (\<lambda>g. inSignal g slot sp) gs st) = slotsToConnectedSignals st \<and>
   signalSenders (fold (\<lambda>g. inSignal g slot sp) gs st) = signalSenders st \<and>
   thread (fold (\<lambda>g. inSignal g slot sp) gs st) = thread st"
  by (induction gs arbitrary: st) (auto simp: inSignal_def)

lemma fold_inSlotProvider:
  "distinct rs \<Longrightarrow>
   slotsToConnectedSignals (fold (\<lambda>r. inSlotProvider r slot sg) rs st) R
     = (if R \<in> set rs then disconnectLocalInSlotProvider slot sg (slotsToConnectedSignals st R)
        else slotsToConnectedSignals st R) \<and>
   connectedSlots (fold (\<lambda>r. inSlotProvider r slot sg) rs st) = connectedSlots st \<and>
   signalSenders (fold (\<lambda>r. inSlotProvider r slot sg) rs st) = signalSenders st \<and>
   thread (fold (\<lambda>r. inSlotProvider r slot sg) rs st) = thread st"
  by (induction rs arbitrary: st) (auto simp: inSlotProvider_def)

lemma consistentD:
  "consistent st \<Longrightarrow> forwardRows st E R s = inverseRows st E R s"
  "consistent st \<Longrightarrow> inverseRows st E R s \<le> 1"
  "consistent st \<Longrightarrow> forwardRows st E R s \<le> 1"
  "consistent st \<Longrightarrow> distinct (map fst (connectedSlots st E))"
  unfolding consistent_def by metis+

lemma in_getConnectedSignals:
  "g \<in> set (rowsOf tbl s) \<Longrightarrow> g \<in> set (getConnectedSignals tbl)"
proof -
  assume g: "g \<in> set (rowsOf tbl s)"
  then obtain v where v: "map_of tbl s = Some v" "g \<in> set v"
    by (cases "map_of tbl s") (auto simp: rowsOf_def)
  then have "(s, v) \<in> set tbl" by (auto dest: map_of_SomeD)
  with v show ?thesis by (force simp: getConnectedSignals_def)
qed

lemma not_in_getConnectedSlots:
  "R \<notin> set (getConnectedSlots tbl) \<Longrightarrow> rowsOf tbl R = []"
proof -
  assume "R \<notin> set (getConnectedSlots tbl)"
  then have "map_of tbl R = None" by (simp add: getConnectedSlots_def map_of_eq_None_iff)
  then show ?thesis by (simp add: rowsOf_def)
qed

lemma count_list_0: "x \<notin> set xs \<Longrightarrow> count_list xs x = 0"
  by (simp add: count_list_0_iff)

lemma forwardRows_disconnect_both:
  "forwardRows (disconnect slot (Some sg) (Some sp) st) E R s'
     = (if E = sg \<and> R = sp \<and> (slot = None \<or> slot = s')
        then (case slot of None \<Rightarrow> 0 | Some _ \<Rightarrow> forwardRows st E R s' - 1)
        else forwardRows st E R s')"
  by (auto simp: disconnect_def forwardRows_def inSignal_def inSlotProvider_def
      rowsOf_disconnectLocalInSignal count_eraseFirst_slot split: option.splits)

lemma inverseRows_disconnect_both:
  "inverseRows (disconnect slot (Some sg) (Some sp) st) E R s'
     = (if E = sg \<and> R = sp \<and> (slot = None \<or> slot = s')
        then inverseRows st E R s' - 1
        else inverseRows st E R s')"
  by (auto simp: disconnect_def inverseRows_def inSignal_def inSlotProvider_def
      rowsOf_disconnectLocalInSlotProvider count_eraseFirst_eq split: option.splits)

lemma distinct_getConnectedSignals [simp]: "distinct (getConnectedSignals tbl)"
  by (simp add: getConnectedSignals_def)

lemma distinct_getConnectedSlots [simp]: "distinct (getConnectedSlots tbl)"
  by (simp add: getConnectedSlots_def)

lemma forwardRows_disconnect_receiver:
  "forwardRows (disconnect slot None (Some sp) st) E R s'
     = (if E \<in> set (getConnectedSignals (slotsToConnectedSignals st sp)) \<and> R = sp \<and>
           (slot = None \<or> slot = s')
        then (case slot of None \<Rightarrow> 0 | Some _ \<Rightarrow> forwardRows st E R s' - 1)
        else forwardRows st E R s')"
  by (auto simp: disconnect_def forwardRows_def inSlotProvider_def fold_inSignal
      rowsOf_disconnectLocalInSignal count_eraseFirst_slot split: option.splits)

lemma inverseRows_disconnect_receiver:
  "inverseRows (disconnect slot None (Some sp) st) E R s'
     = (if R = sp \<and> (slot = None \<or> slot = s') then 0 else inverseRows st E R s')"
  by (auto simp: disconnect_def inverseRows_def inSlotProvider_def fold_inSignal
      rowsOf_disconnectLocalInSlotProvider split: option.splits)

lemma forwardRows_disconnect_signal:
  "forwardRows (disconnect slot (Some sg) None st) E R s'
     = (if E = sg \<and> (slot = None \<or> slot = s')
        then (case slot of None \<Rightarrow> 0 | Some _ \<Rightarrow> forwardRows st E R s' - 1)
        else forwardRows st E R s')"
  by (auto simp: disconnect_def forwardRows_def inSignal_def fold_inSlotProvider
      rowsOf_disconnectLocalInSignal count_eraseFirst_slot split: option.splits)

lemma inverseRows_disconnect_signal:
  "inverseRows (disconnect slot (Some sg) None st) E R s'
     = (if R \<in> set (getConnectedSlots (connectedSlots st sg)) \<and> E = sg \<and> (slot = None \<or> slot = s')
        then inverseRows st E R s' - 1
        else inverseRows st E R s')"
  by (auto simp: disconnect_def inverseRows_def inSignal_def fold_inSlotProvider
      rowsOf_disconnectLocalInSlotProvider count_eraseFirst_eq split: option.splits)

lemma inverseRows_0_receiver:
  "E \<notin> set (getConnectedSignals (slotsToConnectedSignals st R)) \<Longrightarrow> inverseRows st E R s = 0"
  unfolding inverseRows_def by (meson count_list_0 in_getConnectedSignals)

lemma forwardRows_0_signal:
  "R \<notin> set (getConnectedSlots (connectedSlots st E)) \<Longrightarrow> forwardRows st E R s = 0"
  by (simp add: forwardRows_def not_in_getConnectedSlots)

lemma forwardRows_disconnect:
  assumes "consistent st"
  shows "forwardRows (disconnect slot sg sp st) E R s'
     = (if (sg \<noteq> None \<or> sp \<noteq> None) \<and> wild sg E \<and> wild sp R \<and> (slot = None \<or> slot = s')
        then 0 else forwardRows st E R s')"
proof -
  note le = consistentD(3)[OF assms, of E R s']
  note eq = consistentD(1)[OF assms, of E R s']
  show ?thesis
  proof (cases sg)
    case None
    note sgN = this
    show ?thesis
    proof (cases sp)
      case None
      with sgN show ?thesis by (simp add: disconnect_def)
    next
      case (Some r)
      show ?thesis
      proof (cases "E \<in> set (getConnectedSignals (slotsToConnectedSignals st r))")
        case True
        with sgN Some le show ?thesis
          by (auto simp: forwardRows_disconnect_receiver wild_def split: option.splits)
      next
        case False
        then have "inverseRows st E r s' = 0" by (rule inverseRows_0_receiver)
        with False sgN Some eq show ?thesis
          by (auto simp: forwardRows_disconnect_receiver wild_def split: option.splits)
      qed
    qed
  next
    case (Some g)
    note sgS = this
    show ?thesis
    proof (cases sp)
      case None
      with sgS le show ?thesis
        by (auto simp: forwardRows_disconnect_signal wild_def split: option.splits)
    next
      case (Some r)
      with sgS le show ?thesis
        by (auto simp: forwardRows_disconnect_both wild_def split: option.splits)
    qed
  qed
qed

lemma inverseRows_disconnect:
  assumes "consistent st"
  shows "inverseRows (disconnect slot sg sp st) E R s'
     = (if (sg \<noteq> None \<or> sp \<noteq> None) \<and> wild sg E \<and> wild sp R \<and> (slot = None \<or> slot = s')
        then 0 else inverseRows st E R s')"
proof -
  note le = consistentD(2)[OF assms, of E R s']
  note eq = consistentD(1)[OF assms, of E R s']
  show ?thesis
  proof (cases sg)
    case None
    note sgN = this
    show ?thesis
    proof (cases sp)
      case None
      with sgN show ?thesis by (simp add: disconnect_def)
    next
      case (Some r)
      with sgN show ?thesis
        by (auto simp: inverseRows_disconnect_receiver wild_def)
    qed
  next
    case (Some g)
    note sgS = this
    show ?thesis
    proof (cases sp)
      case None
      show ?thesis
      proof (cases "R \<in> set (getConnectedSlots (connectedSlots st g))")
        case True
        with sgS None le show ?thesis
          by (auto simp: inverseRows_disconnect_signal wild_def)
      next
        case False
        then have "forwardRows st g R s' = 0" by (rule forwardRows_0_signal)
        with False sgS None eq show ?thesis
          by (auto simp: inverseRows_disconnect_signal wild_def)
      qed
    next
      case (Some r)
      with sgS le show ?thesis
        by (auto simp: inverseRows_disconnect_both wild_def)
    qed
  qed
qed

lemma distinct_keys_disconnect:
  assumes "\<forall>E. distinct (map fst (connectedSlots st E))"
  shows "distinct (map fst (connectedSlots (disconnect slot sg sp st) E))"
proof (cases sg)
  case None
  then show ?thesis using assms
    by (cases sp)
       (auto simp: disconnect_def inSlotProvider_def fold_inSignal
          distinct_keys_disconnectLocalInSignal)
next
  case (Some g)
  then show ?thesis using assms
    by (cases sp)
       (auto simp: disconnect_def inSlotProvider_def inSignal_def fold_inSlotProvider
          distinct_keys_disconnectLocalInSignal)
qed

lemma consistentI:
  assumes "\<And>E R s. forwardRows st E R s = inverseRows st E R s"
    and "\<And>E R s. forwardRows st E R s \<le> 1"
    and "\<And>E. distinct (map fst (connectedSlots st E))"
  shows "consistent st"
  using assms unfolding consistent_def by blast

lemma consistent_disconnect:
  assumes c: "consistent st"
  shows "consistent (disconnect slot sg sp st)"
proof (rule consistentI)
  fix E R s
  show "forwardRows (disconnect slot sg sp st) E R s = inverseRows (disconnect slot sg sp st) E R s"
    unfolding forwardRows_disconnect[OF c] inverseRows_disconnect[OF c] consistentD(1)[OF c] ..
  show "forwardRows (disconnect slot sg sp st) E R s \<le> 1"
    using consistentD(3)[OF c, of E R s] by (simp add: forwardRows_disconnect[OF c])
  show "distinct (map fst (connectedSlots (disconnect slot sg sp st) E))"
    using consistentD(4)[OF c] by (simp add: distinct_keys_disconnect)
qed

lemma connectionExists_iff:
  "connectionExists R s tbl \<longleftrightarrow> 0 < count_list (map fst (rowsOf tbl R)) s"
  by (cases "map_of tbl R") (auto simp: connectionExists_def rowsOf_def count_list_0_iff neq0_conv[symmetric] simp del: neq0_conv)

lemma rowsOf_registerConnection:
  "rowsOf (registerConnection s g tbl) s' = (if s' = s then rowsOf tbl s @ [g] else rowsOf tbl s')"
  by (cases "map_of tbl s") (auto simp: registerConnection_def rowsOf_def update_conv')

lemma forwardRows_registerSlot:
  "forwardRows (registerSlot E R f ct st) E' R' s'
     = (if E' = E \<and> R' = R \<and> s' = f \<and> forwardRows st E R f = 0 then 1 else forwardRows st E' R' s')"
  by (cases "map_of (connectedSlots st E) R")
     (auto simp: registerSlot_def functionToPointer_def appendConnection_def connectionExists_iff
        forwardRows_def Let_def rowsOf_def update_conv')

lemma inverseRows_registerSlot:
  "inverseRows (registerSlot E R f ct st) E' R' s'
     = (if E' = E \<and> R' = R \<and> s' = f \<and> forwardRows st E R f = 0 then inverseRows st E R f + 1
        else inverseRows st E' R' s')"
  by (auto simp: registerSlot_def functionToPointer_def appendConnection_def connectionExists_iff
        forwardRows_def inverseRows_def Let_def rowsOf_registerConnection)

lemma distinct_keys_registerSlot:
  "distinct (map fst (connectedSlots st E')) \<Longrightarrow>
   distinct (map fst (connectedSlots (registerSlot E R f ct st) E'))"
  by (auto simp: registerSlot_def appendConnection_def Let_def distinct_update split: option.splits)

lemma consistent_registerSlot:
  assumes c: "consistent st"
  shows "consistent (registerSlot E R f ct st)"
proof (rule consistentI)
  fix E' R' s
  show "forwardRows (registerSlot E R f ct st) E' R' s = inverseRows (registerSlot E R f ct st) E' R' s"
    using consistentD(1)[OF c, of E R f]
    by (simp add: forwardRows_registerSlot inverseRows_registerSlot consistentD(1)[OF c])
  show "forwardRows (registerSlot E R f ct st) E' R' s \<le> 1"
    using consistentD(3)[OF c, of E' R' s] by (simp add: forwardRows_registerSlot)
  show "distinct (map fst (connectedSlots (registerSlot E R f ct st) E'))"
    using consistentD(4)[OF c] by (simp add: distinct_keys_registerSlot)
qed

lemma consistent_empty: "consistent emptyDispatch"
  by (simp add: consistent_def emptyDispatch_def forwardRows_def inverseRows_def)

lemma consistent_perform: "consistent st \<Longrightarrow> consistent (perform op st)"
  by (cases op)
     (simp_all add: consistent_registerSlot consistent_disconnect)

lemma consistent_fold_perform: "consistent st \<Longrightarrow> consistent (fold perform ops st)"
  by (induction ops arbitrary: st) (simp_all add: consistent_perform)

lemma consistent_reached: "consistent (reached ops)"
  by (simp add: reached_def consistent_fold_perform consistent_empty)

lemma consistent_callOnPair: "consistent st \<Longrightarrow> consistent (callOnPair E R f c st)"
  by (cases c) (simp_all add: consistent_registerSlot consistent_disconnect)

lemma consistent_fold_callOnPair: "consistent st \<Longrightarrow> consistent (fold (callOnPair E R f) cs st)"
  by (induction cs arbitrary: st) (simp_all add: consistent_callOnPair)

lemma registerSlot_again:
  "registerSlot E R f ct2 (registerSlot E R f ct1 st) = registerSlot E R f ct1 st"
proof -
  have "connectionExists R (functionToPointer f) (connectedSlots (registerSlot E R f ct1 st) E)"
    by (cases "map_of (connectedSlots st E) R")
       (auto simp: registerSlot_def functionToPointer_def appendConnection_def connectionExists_def
          Let_def update_conv')
  then show ?thesis
    by (simp add: registerSlot_def [of E R f ct2])
qed

lemma rows_after_callOnPair:
  assumes c: "consistent st"
  shows "forwardRows (callOnPair E R f call st) E R f = (case call of CallRegisterSlot _ \<Rightarrow> 1 | CallDisconnect \<Rightarrow> 0)"
    and "inverseRows (callOnPair E R f call st) E R f = (case call of CallRegisterSlot _ \<Rightarrow> 1 | CallDisconnect \<Rightarrow> 0)"
proof -
  show fw: "forwardRows (callOnPair E R f call st) E R f = (case call of CallRegisterSlot _ \<Rightarrow> 1 | CallDisconnect \<Rightarrow> 0)"
    using consistentD(3)[OF c, of E R f]
    by (cases call)
       (auto simp: forwardRows_registerSlot forwardRows_disconnect[OF c] wild_def functionToPointer_def)
  have "consistent (callOnPair E R f call st)" by (rule consistent_callOnPair[OF c])
  from consistentD(1)[OF this, of E R f] fw
  show "inverseRows (callOnPair E R f call st) E R f = (case call of CallRegisterSlot _ \<Rightarrow> 1 | CallDisconnect \<Rightarrow> 0)"
    by simp
qed

text \<open>
  Claim C2: \<^verbatim>\<open>registerSlot\<close> is idempotent, and in every state a program can reach, after any
  sequence of \<^verbatim>\<open>registerSlot\<close> and \<^verbatim>\<open>disconnect\<close> calls for one emitter, receiver and slot
  the forward table of the emitter and the inverse table of the receiver both hold exactly one
  row for the pair when the last call was a \<^verbatim>\<open>registerSlot\<close> (whatever the connection types
  and however many registrations came before) and no row when it was a \<^verbatim>\<open>disconnect\<close>.
\<close>

theorem connection_row_count:
  "registerSlot emitter receiver f ct2 (registerSlot emitter receiver f ct1 st)
     = registerSlot emitter receiver f ct1 st \<and>
   forwardRows (fold (callOnPair emitter receiver f) (calls @ [call]) (reached ops)) emitter receiver
       (functionToPointer f)
     = (case call of CallRegisterSlot _ \<Rightarrow> 1 | CallDisconnect \<Rightarrow> 0) \<and>
   inverseRows (fold (callOnPair emitter receiver f) (calls @ [call]) (reached ops)) emitter receiver
       (functionToPointer f)
     = (case call of CallRegisterSlot _ \<Rightarrow> 1 | CallDisconnect \<Rightarrow> 0)"
proof -
  have "consistent (fold (callOnPair emitter receiver f) calls (reached ops))"
    by (rule consistent_fold_callOnPair[OF consistent_reached])
  from rows_after_callOnPair[OF this, of emitter receiver f call] registerSlot_again
  show ?thesis by (simp add: functionToPointer_def)
qed

lemma no_rows_if_count_0:
  assumes "\<And>s. count_list (map fst rows) s = 0"
  shows "rows = []"
proof (cases rows)
  case Nil
  then show ?thesis .
next
  case (Cons r rs)
  with assms[of "fst r"] show ?thesis by simp
qed

lemma emit_member:
  assumes "distinct (map fst (connectedSlots st E))" and "(R, s, ct) \<in> set (emit E st)"
  shows "(s, ct) \<in> set (rowsOf (connectedSlots st E) R)"
proof -
  from assms(2) obtain rows where "(R, rows) \<in> set (connectedSlots st E)" "(s, ct) \<in> set rows"
    by (auto simp: emit_def)
  with assms(1) show ?thesis by (simp add: rowsOf_def)
qed

lemma tables_execute: "execute c h = Some h' \<Longrightarrow> tables h' = perform c (tables h)"
  by (cases c)
     (auto simp: registerSlotCall_def disconnectCall_def destroySignal_def destroySlotProvider_def
        split: if_splits option.splits)

lemma tables_executeAll: "executeAll cs h = Some h' \<Longrightarrow> tables h' = fold perform cs (tables h)"
  by (induction cs arbitrary: h) (auto simp: tables_execute split: option.splits)

lemma tables_program: "executeAll cs newObjects = Some h \<Longrightarrow> tables h = reached cs"
  by (simp add: tables_executeAll reached_def newObjects_def)

lemma receiver_disconnected:
  assumes c: "consistent st"
  shows "forwardRows (disconnect None None (Some R) st) E R s = 0"
    and "(R, s, ct) \<notin> set (emit E (disconnect None None (Some R) st))"
    and "slotsToConnectedSignals (disconnect None None (Some R) st) R = []"
proof -
  let ?st = "disconnect None None (Some R) st"
  have c': "consistent ?st"
    by (rule consistent_disconnect[OF c])
  have z: "\<And>s. forwardRows ?st E R s = 0"
    by (simp add: forwardRows_disconnect[OF c] wild_def)
  then show "forwardRows ?st E R s = 0" .
  from z have r: "rowsOf (connectedSlots ?st E) R = []"
    unfolding forwardRows_def by (rule no_rows_if_count_0)
  show "(R, s, ct) \<notin> set (emit E ?st)"
    using emit_member[OF consistentD(4)[OF c'], of R s ct E] r by auto
  show "slotsToConnectedSignals ?st R = []"
    by (simp add: disconnect_def inSlotProvider_def disconnectLocalInSlotProvider_def)
qed

lemma signal_disconnected:
  assumes c: "consistent st"
  shows "inverseRows (disconnect None (Some E) None st) E R s = 0"
    and "connectedSlots (disconnect None (Some E) None st) E = []"
  by (simp add: inverseRows_disconnect[OF c] wild_def)
     (simp add: disconnect_def inSignal_def fold_inSlotProvider disconnectLocalInSignal_def)

lemma signal_destroyed_own_table:
  "connectedSlots (disconnect None None (Some E) (disconnect None (Some E) None st)) E = []"
  by (auto simp: disconnect_def inSlotProvider_def inSignal_def fold_inSignal fold_inSlotProvider
      disconnectLocalInSignal_def)

text \<open>
  What the destructors do achieve in a program run: a \<^verbatim>\<open>~SlotProvider\<close> that returns leaves
  no connection to the destroyed receiver, so that no emission delivers to it, and its inverse
  table empty; a \<^verbatim>\<open>~Signal\<close> that returns leaves no connection from the destroyed signal and
  none to it.
\<close>

lemma destructors_remove_connections:
  assumes run: "executeAll cs newObjects = Some h"
  shows "destroySlotProvider receiver h = Some h' \<Longrightarrow>
           forwardRows (tables h') peer receiver s = 0 \<and>
           (receiver, s, ct) \<notin> set (emit peer (tables h')) \<and>
           slotsToConnectedSignals (tables h') receiver = [] \<and>
           receiver \<in> set (destroyed h')"
    and "destroySignal signal h = Some h' \<Longrightarrow>
           inverseRows (tables h') signal peer s = 0 \<and>
           emit signal (tables h') = [] \<and>
           forwardRows (tables h') peer signal s = 0 \<and>
           (signal, s, ct) \<notin> set (emit peer (tables h')) \<and>
           signal \<in> set (destroyed h')"
proof -
  have c: "consistent (tables h)"
    unfolding tables_program[OF run] by (rule consistent_reached)
  {
    assume "destroySlotProvider receiver h = Some h'"
    then have t: "tables h' = disconnect None None (Some receiver) (tables h)"
      and d: "receiver \<in> set (destroyed h')"
      by (auto simp: destroySlotProvider_def disconnectCall_def split: if_splits option.splits)
    show "forwardRows (tables h') peer receiver s = 0 \<and>
           (receiver, s, ct) \<notin> set (emit peer (tables h')) \<and>
           slotsToConnectedSignals (tables h') receiver = [] \<and>
           receiver \<in> set (destroyed h')"
      unfolding t using receiver_disconnected[OF c] d by simp
  }
  {
    let ?st1 = "disconnect None (Some signal) None (tables h)"
    assume "destroySignal signal h = Some h'"
    then have t: "tables h' = disconnect None None (Some signal) ?st1"
      and d: "signal \<in> set (destroyed h')"
      by (auto simp: destroySignal_def destroySlotProvider_def disconnectCall_def
          split: if_splits option.splits)
    have c1: "consistent ?st1" by (rule consistent_disconnect[OF c])
    have "inverseRows ?st1 signal peer s = 0" and e: "connectedSlots ?st1 signal = []"
      by (rule signal_disconnected[OF c])+
    then have i: "inverseRows (disconnect None None (Some signal) ?st1) signal peer s = 0"
      by (simp add: inverseRows_disconnect[OF c1])
    have "connectedSlots (disconnect None None (Some signal) ?st1) signal = []"
      by (rule signal_destroyed_own_table)
    then have "emit signal (disconnect None None (Some signal) ?st1) = []"
      by (simp add: emit_def)
    with i show "inverseRows (tables h') signal peer s = 0 \<and>
           emit signal (tables h') = [] \<and>
           forwardRows (tables h') peer signal s = 0 \<and>
           (signal, s, ct) \<notin> set (emit peer (tables h')) \<and>
           signal \<in> set (destroyed h')"
      unfolding t using receiver_disconnected[OF c1] d by simp
  }
qed

text \<open>
  Claim C3: after a destructor has returned no table of a peer names the destroyed object. The
  code fails it. After \<open>staleKeyExample\<close> the program is well defined, receiver 2 is
  destroyed and no emission of signal 1 delivers anything, but the forward table of signal 1
  still holds the key of receiver 2, with an empty list of rows: the \<^verbatim>\<open>disconnect\<close> of the
  one slot has emptied the list and left the key, and \<^verbatim>\<open>~SlotProvider\<close> visits only the
  signals of its inverse table, where signal 1 no longer is. \<^verbatim>\<open>getConnectedSlots\<close> of
  signal 1 still returns the destroyed receiver, so that \<^verbatim>\<open>~Signal\<close> of signal 1, and
  every \<^verbatim>\<open>disconnect\<close> that names signal 1 and no receiver, calls a member function on the
  destroyed object. Had the connection been removed by a \<^verbatim>\<open>disconnect\<close> without a slot,
  which erases the key, or not been removed at all, the same destructions are well defined.
\<close>

theorem destroyed_receiver_stays_in_table:
  "map_option (\<lambda>h. (destroyed h, connectedSlots (tables h) 1, emit 1 (tables h),
                      getConnectedSlots (connectedSlots (tables h) 1)))
     (executeAll staleKeyExample newObjects)
     = Some ([2], [(2, [])], [], [2]) \<and>
   map_option destroyed (executeAll (staleKeyExample @ [DestroySignal 1]) newObjects) = None \<and>
   map_option destroyed (executeAll (staleKeyExample @ [Disconnect (Some 3) (Some 1) None]) newObjects)
     = None \<and>
   map_option destroyed
     (executeAll [RegisterSlot 1 2 (Some 3) AutoConnection, Disconnect None (Some 1) (Some 2),
                  DestroySlotProvider 2, DestroySignal 1] newObjects) = Some [1, 2] \<and>
   map_option destroyed
     (executeAll [RegisterSlot 1 2 (Some 3) AutoConnection,
                  DestroySlotProvider 2, DestroySignal 1] newObjects) = Some [1, 2]"
  by code_simp

section \<open>Properties of disconnect with two null endpoints\<close>

text \<open>
  Claim C6, as stated: \<^verbatim>\<open>disconnect\<close> with both the signal provider and the slot provider
  null is rejected. It fails: with a slot and without one, the call returns and leaves the
  tables, which hold a connection, as they are.
\<close>

theorem disconnect_both_null_counterexample:
  "disconnect (Some 3) None None connectedExample = connectedExample \<and>
   disconnect None None None connectedExample = connectedExample \<and>
   forwardRows connectedExample 1 2 (Some 3) = 1"
  by (simp add: disconnect_def connectedExample_def forwardRows_registerSlot)
     (simp add: forwardRows_def emptyDispatch_def)

text \<open>
  Claim C6, amended: for every value of the slot argument, \<^verbatim>\<open>disconnect\<close> with both the
  signal provider and the slot provider null returns at once and changes nothing.
\<close>

theorem disconnect_both_null:
  "disconnect slot None None st = st"
  by (simp add: disconnect_def)

section \<open>Properties of the connection identity\<close>

lemma filter_slot_single:
  assumes "count_list (map fst rows) s = 0"
  shows "filter (\<lambda>r. fst r = s) (rows @ [(s, ct)]) = [(s, ct)]"
proof -
  from assms have "s \<notin> set (map fst rows)" by (simp add: count_list_0_iff)
  then have "filter (\<lambda>r. fst r = s) rows = []" by (auto simp: filter_empty_conv)
  then show ?thesis by simp
qed

lemma rowsOf_registerSlot_new:
  assumes "\<not> connectionExists R (functionToPointer f) (connectedSlots st E)"
  shows "rowsOf (connectedSlots (registerSlot E R f ct st) E) R
           = rowsOf (connectedSlots st E) R @ [(functionToPointer f, ct)]"
  using assms
  by (cases "map_of (connectedSlots st E) R")
     (auto simp: registerSlot_def appendConnection_def Let_def rowsOf_def update_conv')

lemma connectionExists_registerSlot:
  "connectionExists R' s' (connectedSlots (registerSlot E R f ct st) E)
     \<longleftrightarrow> (R' = R \<and> s' = functionToPointer f) \<or> connectionExists R' s' (connectedSlots st E)"
  by (cases "map_of (connectedSlots st E) R")
     (auto simp: registerSlot_def functionToPointer_def appendConnection_def connectionExists_def
        Let_def update_conv' split: option.splits)

lemma deliveries_of_other_receivers:
  assumes "R \<notin> fst ` set tbl"
  shows "filter (\<lambda>d. fst d = R)
           (concat (map (\<lambda>(receiver, rows). map (\<lambda>(slot, ct). (receiver, slot, ct)) rows) tbl)) = []"
  using assms by (induction tbl) (auto simp: filter_empty_conv)

lemma deliveries_of_receiver:
  assumes "distinct (map fst tbl)"
  shows "filter (\<lambda>d. fst d = R)
           (concat (map (\<lambda>(receiver, rows). map (\<lambda>(slot, ct). (receiver, slot, ct)) rows) tbl))
         = map (\<lambda>(slot, ct). (R, slot, ct)) (rowsOf tbl R)"
  using assms
proof (induction tbl)
  case Nil
  then show ?case by (simp add: rowsOf_def)
next
  case (Cons e tbl)
  obtain k rows where e: "e = (k, rows)" by (cases e)
  show ?case
  proof (cases "k = R")
    case True
    with Cons.prems e have "R \<notin> fst ` set tbl" by auto
    from deliveries_of_other_receivers[OF this] True e show ?thesis
      by (auto simp: rowsOf_def filter_id_conv)
  next
    case False
    have "filter (\<lambda>d. fst d = R) (map (\<lambda>(slot, ct). (k, slot, ct)) rows) = []"
      using False by (auto simp: filter_empty_conv)
    with Cons False e show ?thesis by (simp add: rowsOf_def)
  qed
qed

lemma emit_of_pair:
  assumes "distinct (map fst (connectedSlots st E))"
  shows "filter (\<lambda>d. fst d = R \<and> fst (snd d) = s) (emit E st)
         = map (\<lambda>(slot, ct). (R, slot, ct)) (filter (\<lambda>r. fst r = s) (rowsOf (connectedSlots st E) R))"
proof -
  have "filter (\<lambda>d. fst d = R \<and> fst (snd d) = s) (emit E st)
      = filter (\<lambda>d. fst (snd d) = s) (filter (\<lambda>d. fst d = R) (emit E st))"
    by (simp add: conj_commute)
  also have "\<dots> = filter (\<lambda>d. fst (snd d) = s)
      (map (\<lambda>(slot, ct). (R, slot, ct)) (rowsOf (connectedSlots st E) R))"
    unfolding emit_def by (simp only: deliveries_of_receiver[OF assms])
  also have "\<dots> = map (\<lambda>(slot, ct). (R, slot, ct))
      (filter (\<lambda>r. fst r = s) (rowsOf (connectedSlots st E) R))"
    by (simp add: filter_map comp_def case_prod_beta)
  finally show ?thesis .
qed

text \<open>
  Claim C10: the check \<^verbatim>\<open>connectionExists\<close> of \<^verbatim>\<open>registerSlot\<close> compares the receiver and the
  slot with the rows of the emitter's forward table, and not the connection type. No
  connection exists in an empty table; after a \<^verbatim>\<open>registerSlot\<close> with any connection type
  the connections that exist are the ones that existed and the registered pair of receiver and
  slot, a different slot of the same receiver or the same slot of a different receiver not
  among them unless it was before. A second \<^verbatim>\<open>registerSlot\<close> for the same receiver and slot
  with any connection type changes nothing. In every state a program can reach the pair then
  has exactly one row in the forward and in the inverse table; and when the pair was not
  connected before the first registration, an emission delivers to the pair exactly once, with
  the connection type of the first registration (when it was connected, both registrations leave
  the state as it was).
\<close>

theorem connection_type_not_in_identity:
  "\<not> connectionExists receiver' slot' (connectedSlots emptyDispatch emitter) \<and>
   (connectionExists receiver' slot' (connectedSlots (registerSlot emitter receiver f ct1 st) emitter)
      \<longleftrightarrow> (receiver' = receiver \<and> slot' = functionToPointer f)
           \<or> connectionExists receiver' slot' (connectedSlots st emitter)) \<and>
   registerSlot emitter receiver f ct2 (registerSlot emitter receiver f ct1 st)
     = registerSlot emitter receiver f ct1 st \<and>
   forwardRows (registerSlot emitter receiver f ct2 (registerSlot emitter receiver f ct1 (reached ops)))
     emitter receiver (functionToPointer f) = 1 \<and>
   inverseRows (registerSlot emitter receiver f ct2 (registerSlot emitter receiver f ct1 (reached ops)))
     emitter receiver (functionToPointer f) = 1 \<and>
   (if connectionExists receiver (functionToPointer f) (connectedSlots (reached ops) emitter)
    then registerSlot emitter receiver f ct2 (registerSlot emitter receiver f ct1 (reached ops))
           = reached ops
    else filter (\<lambda>d. fst d = receiver \<and> fst (snd d) = functionToPointer f)
           (emit emitter (registerSlot emitter receiver f ct2
              (registerSlot emitter receiver f ct1 (reached ops))))
         = [(receiver, functionToPointer f, ct1)])"
proof -
  let ?st = "reached ops"
  let ?st1 = "registerSlot emitter receiver f ct1 ?st"
  have none: "\<not> connectionExists receiver' slot' (connectedSlots emptyDispatch emitter)"
    by (simp add: connectionExists_def emptyDispatch_def)
  have pair: "connectionExists receiver' slot' (connectedSlots (registerSlot emitter receiver f ct1 st) emitter)
      \<longleftrightarrow> (receiver' = receiver \<and> slot' = functionToPointer f)
           \<or> connectionExists receiver' slot' (connectedSlots st emitter)"
    by (rule connectionExists_registerSlot)
  have again: "registerSlot emitter receiver f ct2 (registerSlot emitter receiver f ct1 st)
     = registerSlot emitter receiver f ct1 st"
    by (rule registerSlot_again)
  have again': "registerSlot emitter receiver f ct2 ?st1 = ?st1"
    by (rule registerSlot_again)
  have c: "consistent ?st" by (rule consistent_reached)
  have c1: "consistent ?st1" by (rule consistent_registerSlot[OF c])
  have le: "forwardRows ?st emitter receiver f \<le> 1" by (rule consistentD(3)[OF c])
  have fw: "forwardRows ?st1 emitter receiver (functionToPointer f) = 1"
    using le by (simp add: forwardRows_registerSlot functionToPointer_def)
  have iv: "inverseRows ?st1 emitter receiver (functionToPointer f) = 1"
    using fw consistentD(1)[OF c1, of emitter receiver "functionToPointer f"] by simp
  have last: "if connectionExists receiver (functionToPointer f) (connectedSlots ?st emitter)
    then ?st1 = ?st
    else filter (\<lambda>d. fst d = receiver \<and> fst (snd d) = functionToPointer f) (emit emitter ?st1)
         = [(receiver, functionToPointer f, ct1)]"
  proof (cases "connectionExists receiver (functionToPointer f) (connectedSlots ?st emitter)")
    case True
    then show ?thesis by (simp add: registerSlot_def)
  next
    case False
    then have "count_list (map fst (rowsOf (connectedSlots ?st emitter) receiver)) (functionToPointer f) = 0"
      by (simp add: connectionExists_iff)
    then have "filter (\<lambda>r. fst r = functionToPointer f)
        (rowsOf (connectedSlots ?st emitter) receiver @ [(functionToPointer f, ct1)])
      = [(functionToPointer f, ct1)]"
      by (rule filter_slot_single)
    then have "filter (\<lambda>r. fst r = functionToPointer f) (rowsOf (connectedSlots ?st1 emitter) receiver)
      = [(functionToPointer f, ct1)]"
      using False by (simp add: rowsOf_registerSlot_new)
    moreover have "distinct (map fst (connectedSlots ?st1 emitter))"
      by (rule consistentD(4)[OF c1])
    ultimately show ?thesis using False by (simp add: emit_of_pair)
  qed
  from none pair again fw iv last show ?thesis
    unfolding again' by blast
qed

text \<open>
  Signal 1 registers slot 3 of receiver 2 for automatic and then for queued delivery: an
  emission makes one delivery, an automatic one. Slot 4 of the same receiver is a connection of
  its own.
\<close>

theorem connection_type_not_in_identity_witness:
  "emit 1 (registerSlot 1 2 (Some 3) QueuedConnection
             (registerSlot 1 2 (Some 3) AutoConnection (reached [])))
     = [(2, Some 3, AutoConnection)] \<and>
   \<not> connectionExists 2 (Some 4)
       (connectedSlots (registerSlot 1 2 (Some 3) AutoConnection emptyDispatch) 1) \<and>
   \<not> connectionExists 5 (Some 3)
       (connectedSlots (registerSlot 1 2 (Some 3) AutoConnection emptyDispatch) 1) \<and>
   connectionExists 2 (Some 3)
       (connectedSlots (registerSlot 1 2 (Some 3) AutoConnection emptyDispatch) 1)"
proof -
  note t = connection_type_not_in_identity[where emitter = 1 and receiver = 2 and f = "Some 3"
      and ?ct1.0 = AutoConnection and ?ct2.0 = QueuedConnection and st = emptyDispatch
      and ops = "[]"]
  have e: "reached [] = emptyDispatch" by (simp add: reached_def)
  have all: "filter (\<lambda>d. fst d = 2 \<and> fst (snd d) = Some 3)
         (emit 1 (registerSlot 1 2 (Some 3) QueuedConnection
             (registerSlot 1 2 (Some 3) AutoConnection (reached []))))
      = emit 1 (registerSlot 1 2 (Some 3) QueuedConnection
             (registerSlot 1 2 (Some 3) AutoConnection (reached [])))"
    unfolding e by code_simp
  have n: "\<not> connectionExists 2 (functionToPointer (Some 3)) (connectedSlots (reached []) 1)"
    using t[where receiver' = 2 and slot' = "functionToPointer (Some 3)"] unfolding e by blast
  have "filter (\<lambda>d. fst d = 2 \<and> fst (snd d) = Some 3)
         (emit 1 (registerSlot 1 2 (Some 3) QueuedConnection
             (registerSlot 1 2 (Some 3) AutoConnection (reached []))))
      = [(2, Some 3, AutoConnection)]"
    using t[where receiver' = 2 and slot' = "Some 3"] n
    by (simp add: functionToPointer_def)
  then have a: "emit 1 (registerSlot 1 2 (Some 3) QueuedConnection
             (registerSlot 1 2 (Some 3) AutoConnection (reached [])))
     = [(2, Some 3, AutoConnection)]"
    by (simp only: all)
  have b: "\<not> connectionExists 2 (Some 4)
       (connectedSlots (registerSlot 1 2 (Some 3) AutoConnection emptyDispatch) 1)"
    using t[where receiver' = 2 and slot' = "Some 4"] by (simp add: functionToPointer_def)
  have c: "\<not> connectionExists 5 (Some 3)
       (connectedSlots (registerSlot 1 2 (Some 3) AutoConnection emptyDispatch) 1)"
    using t[where receiver' = 5 and slot' = "Some 3"] by (simp add: functionToPointer_def)
  have d: "connectionExists 2 (Some 3)
       (connectedSlots (registerSlot 1 2 (Some 3) AutoConnection emptyDispatch) 1)"
    using t[where receiver' = 2 and slot' = "Some 3"] by (simp add: functionToPointer_def)
  from a b c d show ?thesis by blast
qed

section \<open>Properties of the sender stacks\<close>








section \<open>Properties of the task assignment\<close>

lemma checkTasks_loop_result:
  "\<forall>i\<in>set rdy. i < length thr \<Longrightarrow>
   checkTasks_loop thr ts rdy =
     Some (drop (min (length ts) (length rdy)) ts, drop (min (length ts) (length rdy)) rdy,
           map (\<lambda>(i, t). ReceiveTask (thr ! i) t) (zip rdy ts))"
  by (induction thr ts rdy rule: checkTasks_loop.induct) auto

lemma checkTasks_result:
  assumes "\<forall>i\<in>set (workersReady s). i < length (threads s)"
  shows "checkTasks s =
     Some (s \<lparr> tasks := drop (min (length (tasks s)) (length (workersReady s))) (tasks s),
              workersReady := drop (min (length (tasks s)) (length (workersReady s))) (workersReady s) \<rparr>,
           map (\<lambda>(i, t). ReceiveTask (threads s ! i) t) (zip (workersReady s) (tasks s)))"
  by (simp add: checkTasks_def checkTasks_loop_result[OF assms])

lemma dispatched_zip:
  "dispatched (map (\<lambda>(i, t). ReceiveTask (thr ! i) t) (zip rdy ts)) = take (min (length ts) (length rdy)) ts"
proof (induction rdy arbitrary: ts)
  case Nil
  then show ?case by simp
next
  case (Cons i rdy)
  then show ?case by (cases ts) simp_all
qed

lemma receivers_zip:
  "receivers (map (\<lambda>(i, t). ReceiveTask (thr ! i) t) (zip rdy ts))
     = map (\<lambda>i. thr ! i) (take (min (length ts) (length rdy)) rdy)"
proof (induction rdy arbitrary: ts)
  case Nil
  then show ?case by simp
next
  case (Cons i rdy)
  then show ?case by (cases ts) simp_all
qed

text \<open>
  Claim C5: when every ready index is valid, \<^verbatim>\<open>checkTasks\<close> returns; it hands out
  min(|tasks|, |ready|) tasks, the first tasks of the queue in queue order, each to the worker
  of one of the first ready indices, and removes those tasks from the front of the queue and
  those indices from the ready set; \<^verbatim>\<open>extendQueue\<close> appends the new tasks at the back, in
  their order, and runs the same loop (and does nothing during destruction).
\<close>

theorem checkTasks_fifo:
  assumes "\<forall>i\<in>set (workersReady s). i < length (threads s)"
  shows "\<exists>es. checkTasks s =
       Some (s \<lparr> tasks := drop (min (length (tasks s)) (length (workersReady s))) (tasks s),
                workersReady := drop (min (length (tasks s)) (length (workersReady s))) (workersReady s) \<rparr>,
             es) \<and>
     length es = min (length (tasks s)) (length (workersReady s)) \<and>
     dispatched es = take (min (length (tasks s)) (length (workersReady s))) (tasks s) \<and>
     receivers es = map (\<lambda>i. threads s ! i)
                      (take (min (length (tasks s)) (length (workersReady s))) (workersReady s)) \<and>
     es = map (\<lambda>(i, t). ReceiveTask (threads s ! i) t) (zip (workersReady s) (tasks s)) \<and>
     extendQueue newTasks s =
       (if isInDestructor s then Some (s, []) else checkTasks (s \<lparr> tasks := tasks s @ newTasks \<rparr>))"
  using checkTasks_result[OF assms]
  by (simp add: dispatched_zip receivers_zip extendQueue_def)

text \<open>Three tasks and two ready workers: tasks 1 and 2 go out, task 3 and later task 4 wait.\<close>

theorem checkTasks_fifo_witness:
  "checkTasks fifoExample
     = Some (fifoExample \<lparr> tasks := [3], workersReady := [] \<rparr>, [ReceiveTask 10 1, ReceiveTask 11 2]) \<and>
   extendQueue [4] fifoExample
     = Some (fifoExample \<lparr> tasks := [3, 4], workersReady := [] \<rparr>, [ReceiveTask 10 1, ReceiveTask 11 2])"
proof -
  have v: "\<forall>i\<in>set (workersReady fifoExample). i < length (threads fifoExample)"
    by (simp add: fifoExample_def)
  have v': "\<forall>i\<in>set (workersReady (fifoExample \<lparr> tasks := tasks fifoExample @ [4] \<rparr>)).
              i < length (threads (fifoExample \<lparr> tasks := tasks fifoExample @ [4] \<rparr>))"
    by (simp add: fifoExample_def)
  from checkTasks_fifo[OF v, of "[4]"] checkTasks_fifo[OF v', of "[]"]
  show ?thesis
    by (simp add: fifoExample_def)
qed

section \<open>Properties of the controller among its workers\<close>

lemma set_set_insert [simp]: "set (set_insert x xs) = insert x (set xs)"
  by (auto simp: set_insert_def set_insort_key)

lemma sorted_set_insert [simp]: "sorted xs \<Longrightarrow> sorted (set_insert x xs)"
  by (simp add: set_insert_def sorted_insort)

lemma distinct_set_insert [simp]: "distinct xs \<Longrightarrow> distinct (set_insert x xs)"
  by (simp add: set_insert_def distinct_insort)

lemma set_set_erase [simp]: "set (set_erase x xs) = set xs - {x}"
  by (auto simp: set_erase_def)

lemma sorted_set_erase [simp]: "sorted xs \<Longrightarrow> sorted (set_erase x xs)"
  by (simp add: set_erase_def removeAll_filter_not_eq sorted_wrt_filter)

lemma distinct_set_erase [simp]: "distinct xs \<Longrightarrow> distinct (set_erase x xs)"
  by (simp add: set_erase_def distinct_removeAll)

lemma soundD:
  assumes "sound w"
  shows "sorted (workersReady (controller w))"
    and "distinct (workersReady (controller w))"
    and "\<And>i. i \<in> set (workersReady (controller w)) \<Longrightarrow> i < length (threads (controller w))"
    and "distinct (threads (controller w))"
    and "\<And>u. u \<in> set (threads (controller w)) \<Longrightarrow> u < nextUuid w"
    and "length (threads (controller w)) < 2 ^ 64"
    and "\<And>i. i < length (threads (controller w)) \<Longrightarrow>
           workerIDs w (threads (controller w) ! i) = word_of_nat (Suc i)"
    and "\<And>i. i < length (threads (controller w)) \<Longrightarrow>
           outstanding w (threads (controller w) ! i)
             = (if i \<in> set (workersReady (controller w)) then 0 else 1)"
    and "\<And>e. e \<in> set (finished w) \<Longrightarrow> fst e = workerIDs w (snd e) \<and> snd e < nextUuid w"
    and "\<And>u. nextUuid w \<le> u \<Longrightarrow> eventLoop w u = []"
  using assms unfolding sound_def by blast+

lemma soundI:
  assumes "sorted (workersReady (controller w))"
    and "distinct (workersReady (controller w))"
    and "\<And>i. i \<in> set (workersReady (controller w)) \<Longrightarrow> i < length (threads (controller w))"
    and "distinct (threads (controller w))"
    and "\<And>u. u \<in> set (threads (controller w)) \<Longrightarrow> u < nextUuid w"
    and "length (threads (controller w)) < 2 ^ 64"
    and "\<And>i. i < length (threads (controller w)) \<Longrightarrow>
           workerIDs w (threads (controller w) ! i) = word_of_nat (Suc i)"
    and "\<And>i. i < length (threads (controller w)) \<Longrightarrow>
           outstanding w (threads (controller w) ! i)
             = (if i \<in> set (workersReady (controller w)) then 0 else 1)"
    and "\<And>e. e \<in> set (finished w) \<Longrightarrow> fst e = workerIDs w (snd e) \<and> snd e < nextUuid w"
    and "\<And>u. nextUuid w \<le> u \<Longrightarrow> eventLoop w u = []"
  shows "sound w"
  using assms unfolding sound_def by blast

lemma sound_dispatch_one:
  assumes s: "sound w"
    and ts: "tasks (controller w) = t # rest"
    and rdy: "workersReady (controller w) = i # ready"
  shows "sound (applyEffect (ReceiveTask (threads (controller w) ! i) t)
           (w \<lparr> controller := (controller w) \<lparr> tasks := rest, workersReady := ready \<rparr> \<rparr>))"
    (is "sound ?w'")
proof -
  let ?thr = "threads (controller w)"
  note d = soundD[OF s]
  have i: "i < length ?thr" using d(3)[of i] rdy by simp
  have ni: "i \<notin> set ready" using d(2) rdy by simp
  have out: "outstanding w (?thr ! i) = 0" using d(8)[OF i] rdy by simp
  have lt: "?thr ! i < nextUuid w" using d(5) i by simp
  have other: "\<And>j. j < length ?thr \<Longrightarrow> j \<noteq> i \<Longrightarrow> ?thr ! j \<noteq> ?thr ! i"
    using i d(4) by (simp add: nth_eq_iff_index_eq)
  show ?thesis
  proof (rule soundI)
    show "sorted (workersReady (controller ?w'))" using d(1) rdy by simp
    show "distinct (workersReady (controller ?w'))" using d(2) rdy by simp
    show "\<And>j. j \<in> set (workersReady (controller ?w')) \<Longrightarrow> j < length (threads (controller ?w'))"
      using d(3) rdy by simp
    show "distinct (threads (controller ?w'))" using d(4) by simp
    show "\<And>u. u \<in> set (threads (controller ?w')) \<Longrightarrow> u < nextUuid ?w'" using d(5) by simp
    show "length (threads (controller ?w')) < 2 ^ 64" using d(6) by simp
    show "\<And>j. j < length (threads (controller ?w')) \<Longrightarrow>
           workerIDs ?w' (threads (controller ?w') ! j) = word_of_nat (Suc j)"
      using d(7) by simp
    show "\<And>j. j < length (threads (controller ?w')) \<Longrightarrow>
           outstanding ?w' (threads (controller ?w') ! j)
             = (if j \<in> set (workersReady (controller ?w')) then 0 else 1)"
    proof -
      fix j assume j: "j < length (threads (controller ?w'))"
      show "outstanding ?w' (threads (controller ?w') ! j)
             = (if j \<in> set (workersReady (controller ?w')) then 0 else 1)"
      proof (cases "j = i")
        case True
        with out ni show ?thesis by (simp add: outstanding_def)
      next
        case False
        with other[of j] j d(8)[of j] rdy show ?thesis by (simp add: outstanding_def)
      qed
    qed
    show "\<And>e. e \<in> set (finished ?w') \<Longrightarrow> fst e = workerIDs ?w' (snd e) \<and> snd e < nextUuid ?w'"
      using d(9) by simp
    show "\<And>u. nextUuid ?w' \<le> u \<Longrightarrow> eventLoop ?w' u = []"
      using d(10) lt by auto
  qed
qed

lemma world_controller_same:
  "tasks (controller w) = ts \<Longrightarrow> workersReady (controller w) = rdy \<Longrightarrow>
   w \<lparr> controller := (controller w) \<lparr> tasks := ts, workersReady := rdy \<rparr> \<rparr> = w"
  by simp

lemma sound_dispatch_all:
  assumes "sound w" and "tasks (controller w) = ts" and "workersReady (controller w) = rdy"
    and "threads (controller w) = thr"
  shows "sound (fold applyEffect (map (\<lambda>(i, t). ReceiveTask (thr ! i) t) (zip rdy ts))
           (w \<lparr> controller := (controller w)
                 \<lparr> tasks := drop (min (length ts) (length rdy)) ts,
                   workersReady := drop (min (length ts) (length rdy)) rdy \<rparr> \<rparr>))"
  using assms
proof (induction rdy arbitrary: ts w)
  case Nil
  then show ?case by (simp add: world_controller_same)
next
  case (Cons i rdy)
  show ?case
  proof (cases ts)
    case Nil
    with Cons.prems show ?thesis by (simp add: world_controller_same)
  next
    case (Cons t rest)
    let ?w1 = "applyEffect (ReceiveTask (threads (controller w) ! i) t)
           (w \<lparr> controller := (controller w) \<lparr> tasks := rest, workersReady := rdy \<rparr> \<rparr>)"
    have s1: "sound ?w1"
      using Cons.prems Cons by (intro sound_dispatch_one) simp_all
    have "sound (fold applyEffect (map (\<lambda>(i, t). ReceiveTask (thr ! i) t) (zip rdy rest))
           (?w1 \<lparr> controller := (controller ?w1)
                 \<lparr> tasks := drop (min (length rest) (length rdy)) rest,
                   workersReady := drop (min (length rest) (length rdy)) rdy \<rparr> \<rparr>))"
      using Cons.prems by (intro Cons.IH[OF s1]) simp_all
    moreover have "?w1 \<lparr> controller := (controller ?w1)
                 \<lparr> tasks := drop (min (length rest) (length rdy)) rest,
                   workersReady := drop (min (length rest) (length rdy)) rdy \<rparr> \<rparr>
       = applyEffect (ReceiveTask (thr ! i) t) (w \<lparr> controller := (controller w)
                 \<lparr> tasks := drop (min (length ts) (length (i # rdy))) ts,
                   workersReady := drop (min (length ts) (length (i # rdy))) (i # rdy) \<rparr> \<rparr>)"
      using Cons Cons.prems by (intro World.equality) simp_all
    ultimately show ?thesis using Cons by simp
  qed
qed

lemma checkTasks_sound:
  assumes "sound w"
  shows "\<exists>r. checkTasks (controller w) = Some r \<and> sound (withEffects w r)"
proof -
  have v: "\<forall>i\<in>set (workersReady (controller w)). i < length (threads (controller w))"
    using soundD(3)[OF assms] by blast
  show ?thesis
    unfolding checkTasks_result[OF v] withEffects_def
    using sound_dispatch_all[OF assms refl refl refl] by simp
qed

lemma sound_grow_one:
  assumes s: "sound w" and len: "Suc (length (threads (controller w))) < 2 ^ 64"
  shows "sound (applyEffect (Clone (nextUuid w) (word_of_nat (length (threads (controller w))) + 1))
           (w \<lparr> controller := (controller w)
                 \<lparr> threads := threads (controller w) @ [nextUuid w],
                   workersReady := set_insert (length (threads (controller w)))
                                     (workersReady (controller w)) \<rparr>,
               nextUuid := Suc (nextUuid w) \<rparr>))"
    (is "sound ?w'")
proof -
  let ?thr = "threads (controller w)"
  let ?rdy = "workersReady (controller w)"
  note d = soundD[OF s]
  have fresh: "nextUuid w \<notin> set ?thr" using d(5) by blast
  have nofin: "filter (\<lambda>e. snd e = nextUuid w) (finished w) = []"
    using d(9) by (fastforce simp: filter_empty_conv)
  have notrdy: "length ?thr \<notin> set ?rdy" using d(3) by blast
  show ?thesis
  proof (rule soundI)
    show "sorted (workersReady (controller ?w'))" using d(1) by simp
    show "distinct (workersReady (controller ?w'))" using d(2) by simp
    show "\<And>j. j \<in> set (workersReady (controller ?w')) \<Longrightarrow> j < length (threads (controller ?w'))"
      using d(3) by (auto simp: less_Suc_eq)
    show "distinct (threads (controller ?w'))" using d(4) fresh by simp
    show "\<And>u. u \<in> set (threads (controller ?w')) \<Longrightarrow> u < nextUuid ?w'"
      using d(5) by (auto simp: less_Suc_eq)
    show "length (threads (controller ?w')) < 2 ^ 64" using len by simp
    show "\<And>j. j < length (threads (controller ?w')) \<Longrightarrow>
           workerIDs ?w' (threads (controller ?w') ! j) = word_of_nat (Suc j)"
    proof -
      fix j assume "j < length (threads (controller ?w'))"
      then have "j < length ?thr \<or> j = length ?thr" by auto
      then show "workerIDs ?w' (threads (controller ?w') ! j) = word_of_nat (Suc j)"
      proof
        assume j: "j < length ?thr"
        then have "?thr ! j \<noteq> nextUuid w" using fresh by (metis nth_mem)
        with j d(7)[OF j] show ?thesis by (simp add: nth_append)
      next
        assume "j = length ?thr"
        then show ?thesis by simp
      qed
    qed
    show "\<And>j. j < length (threads (controller ?w')) \<Longrightarrow>
           outstanding ?w' (threads (controller ?w') ! j)
             = (if j \<in> set (workersReady (controller ?w')) then 0 else 1)"
    proof -
      fix j assume "j < length (threads (controller ?w'))"
      then have "j < length ?thr \<or> j = length ?thr" by auto
      then show "outstanding ?w' (threads (controller ?w') ! j)
             = (if j \<in> set (workersReady (controller ?w')) then 0 else 1)"
      proof
        assume j: "j < length ?thr"
        then have "?thr ! j \<noteq> nextUuid w" using fresh by (metis nth_mem)
        with j d(8)[OF j] show ?thesis by (simp add: nth_append outstanding_def)
      next
        assume "j = length ?thr"
        then show ?thesis using nofin by (simp add: outstanding_def)
      qed
    qed
    show "\<And>e. e \<in> set (finished ?w') \<Longrightarrow> fst e = workerIDs ?w' (snd e) \<and> snd e < nextUuid ?w'"
    proof -
      fix e assume "e \<in> set (finished ?w')"
      then have e: "e \<in> set (finished w)" by simp
      from d(9)[OF e] have "snd e \<noteq> nextUuid w" by simp
      with d(9)[OF e] show "fst e = workerIDs ?w' (snd e) \<and> snd e < nextUuid ?w'" by simp
    qed
    show "\<And>u. nextUuid ?w' \<le> u \<Longrightarrow> eventLoop ?w' u = []"
      using d(10) by auto
  qed
qed

lemma sound_shrink_one:
  assumes s: "sound w" and ne: "threads (controller w) \<noteq> []"
  shows "sound (applyEffect (Quit (last (threads (controller w))))
           (w \<lparr> controller := (controller w)
                 \<lparr> threads := butlast (threads (controller w)),
                   workersReady := set_erase (length (threads (controller w)) - 1)
                                     (workersReady (controller w)) \<rparr> \<rparr>))"
    (is "sound ?w'")
proof -
  let ?thr = "threads (controller w)"
  let ?rdy = "workersReady (controller w)"
  note d = soundD[OF s]
  have lastlt: "last ?thr < nextUuid w" using d(5) ne by simp
  have notlast: "\<And>j. j < length ?thr - 1 \<Longrightarrow> ?thr ! j \<noteq> last ?thr"
    using d(4) ne by (simp add: last_conv_nth nth_eq_iff_index_eq)
  show ?thesis
  proof (rule soundI)
    show "sorted (workersReady (controller ?w'))" using d(1) by simp
    show "distinct (workersReady (controller ?w'))" using d(2) by simp
    show "\<And>j. j \<in> set (workersReady (controller ?w')) \<Longrightarrow> j < length (threads (controller ?w'))"
      using d(3) by fastforce
    show "distinct (threads (controller ?w'))" using d(4) by (simp add: distinct_butlast)
    show "\<And>u. u \<in> set (threads (controller ?w')) \<Longrightarrow> u < nextUuid ?w'"
      using d(5) by (auto dest: in_set_butlastD)
    show "length (threads (controller ?w')) < 2 ^ 64" using d(6) by simp
    show "\<And>j. j < length (threads (controller ?w')) \<Longrightarrow>
           workerIDs ?w' (threads (controller ?w') ! j) = word_of_nat (Suc j)"
      using d(7) by (simp add: nth_butlast)
    show "\<And>j. j < length (threads (controller ?w')) \<Longrightarrow>
           outstanding ?w' (threads (controller ?w') ! j)
             = (if j \<in> set (workersReady (controller ?w')) then 0 else 1)"
      using d(8) notlast by (simp add: nth_butlast outstanding_def)
    show "\<And>e. e \<in> set (finished ?w') \<Longrightarrow> fst e = workerIDs ?w' (snd e) \<and> snd e < nextUuid ?w'"
      using d(9) by simp
    show "\<And>u. nextUuid ?w' \<le> u \<Longrightarrow> eventLoop ?w' u = []"
      using d(10) by simp
  qed
qed

lemma fold_Quit:
  "controller (fold applyEffect (map Quit us) w) = controller w \<and>
   nextUuid (fold applyEffect (map Quit us) w) = nextUuid w \<and>
   workerIDs (fold applyEffect (map Quit us) w) = workerIDs w \<and>
   finished (fold applyEffect (map Quit us) w) = finished w \<and>
   eventLoop (fold applyEffect (map Quit us) w) u = (if u \<in> set us then [] else eventLoop w u)"
  by (induction us arbitrary: w) auto

lemma sound_quit_all:
  assumes s: "sound w"
  shows "sound (fold applyEffect (map Quit us)
           (w \<lparr> controller := (controller w) \<lparr> threads := [], workersReady := [] \<rparr> \<rparr>))"
  using soundD(9,10)[OF s]
  by (intro soundI) (simp_all add: fold_Quit)

lemma world_threads_same:
  "threads (controller w) = thr \<Longrightarrow> workersReady (controller w) = rdy \<Longrightarrow> nextUuid w = u \<Longrightarrow>
   w \<lparr> controller := (controller w) \<lparr> threads := thr, workersReady := rdy \<rparr>, nextUuid := u \<rparr> = w"
  by simp

lemma world_controller_threads_same:
  "w \<lparr> controller := (controller w)
        \<lparr> threads := threads (controller w), workersReady := workersReady (controller w) \<rparr> \<rparr> = w"
  by simp

lemma growLoop_sound:
  fixes w :: "'t World" and es :: "'t effect list"
  assumes "sound w" and "i = length (threads (controller w))" and "n < 2 ^ 64"
    and "growLoop i n (nextUuid w) (threads (controller w)) (workersReady (controller w))
           = (u', thr', rdy', es)"
  shows "sound (fold applyEffect es
           (w \<lparr> controller := (controller w) \<lparr> threads := thr', workersReady := rdy' \<rparr>,
               nextUuid := u' \<rparr>))"
  using assms
proof (induction "n - i" arbitrary: i w u' thr' rdy' es)
  case 0
  then have "\<not> i < n" by simp
  with "0.prems" show ?case
    by (simp add: growLoop.simps[of "length (threads (controller w))" n] world_threads_same)
next
  case (Suc k)
  then have lt: "i < n" by simp
  let ?thr = "threads (controller w)"
  let ?w1 = "applyEffect (Clone (nextUuid w) (word_of_nat (length ?thr) + 1))
           (w \<lparr> controller := (controller w)
                 \<lparr> threads := ?thr @ [nextUuid w],
                   workersReady := set_insert (length ?thr) (workersReady (controller w)) \<rparr>,
               nextUuid := Suc (nextUuid w) \<rparr>)"
  have s1: "sound ?w1"
    using Suc.prems lt by (intro sound_grow_one) simp_all
  obtain u1 thr1 rdy1 and es1 :: "'t effect list" where
    rec: "growLoop (Suc i) n (Suc (nextUuid w)) (?thr @ [nextUuid w])
            (set_insert i (workersReady (controller w))) = (u1, thr1, rdy1, es1)"
    by (metis prod_cases4)
  with Suc.prems(4) lt have res: "u' = u1" "thr' = thr1" "rdy' = rdy1"
    "es = Clone (nextUuid w) (word_of_nat i + 1) # es1"
    by (simp_all add: growLoop.simps[of i n])
  have "sound (fold applyEffect es1
           (?w1 \<lparr> controller := (controller ?w1) \<lparr> threads := thr1, workersReady := rdy1 \<rparr>,
               nextUuid := u1 \<rparr>))"
  proof (rule Suc.hyps(1)[OF _ s1 _ Suc.prems(3)])
    show "k = n - Suc i" using Suc.hyps(2) by simp
    show "Suc i = length (threads (controller ?w1))" using Suc.prems(2) by simp
    show "growLoop (Suc i) n (nextUuid ?w1) (threads (controller ?w1)) (workersReady (controller ?w1))
            = (u1, thr1, rdy1, es1)"
      using rec Suc.prems(2) by simp
  qed
  moreover have "?w1 \<lparr> controller := (controller ?w1) \<lparr> threads := thr1, workersReady := rdy1 \<rparr>,
               nextUuid := u1 \<rparr>
      = applyEffect (Clone (nextUuid w) (word_of_nat i + 1))
          (w \<lparr> controller := (controller w) \<lparr> threads := thr', workersReady := rdy' \<rparr>,
               nextUuid := u' \<rparr>)"
    using res Suc.prems(2) by (intro World.equality) simp_all
  ultimately show ?case using res by simp
qed

lemma shrinkLoop_sound:
  assumes "sound w" and "Suc i = length (threads (controller w))" and "0 < n" and "n \<le> Suc i"
  shows "\<exists>thr' rdy' es.
           shrinkLoop i n (threads (controller w)) (workersReady (controller w)) = Some (thr', rdy', es) \<and>
           sound (fold applyEffect es
             (w \<lparr> controller := (controller w) \<lparr> threads := thr', workersReady := rdy' \<rparr> \<rparr>))"
  using assms
proof (induction i arbitrary: w)
  case 0
  then have "n = 1" by simp
  with "0.prems" show ?case
    by (simp add: shrinkLoop.simps[of 0 "length (threads (controller w))"] world_controller_threads_same)
next
  case (Suc i)
  let ?thr = "threads (controller w)"
  show ?case
  proof (cases "n \<le> Suc i")
    case False
    with Suc.prems show ?thesis
      by (simp add: shrinkLoop.simps[of "Suc i" n])
  next
    case True
    have ne: "?thr \<noteq> []" using Suc.prems(2) by auto
    have last: "last ?thr = ?thr ! Suc i"
      using Suc.prems(2)[symmetric] ne by (simp add: last_conv_nth)
    let ?w1 = "applyEffect (Quit (last ?thr))
           (w \<lparr> controller := (controller w)
                 \<lparr> threads := butlast ?thr,
                   workersReady := set_erase (length ?thr - 1) (workersReady (controller w)) \<rparr> \<rparr>)"
    have s1: "sound ?w1" by (rule sound_shrink_one[OF Suc.prems(1) ne])
    have len1: "Suc i = length (threads (controller ?w1))" using Suc.prems(2)[symmetric] by simp
    from Suc.IH[OF s1 len1 Suc.prems(3) True]
    obtain thr' rdy' es where
      rec: "shrinkLoop i n (threads (controller ?w1)) (workersReady (controller ?w1)) = Some (thr', rdy', es)"
      and snd: "sound (fold applyEffect es
             (?w1 \<lparr> controller := (controller ?w1) \<lparr> threads := thr', workersReady := rdy' \<rparr> \<rparr>))"
      by blast
    have len: "length ?thr - 1 = Suc i" using Suc.prems(2)[symmetric] by simp
    have res: "shrinkLoop (Suc i) n ?thr (workersReady (controller w))
                 = Some (thr', rdy', Quit (?thr ! Suc i) # es)"
      using rec True Suc.prems(2)[symmetric] len
      by (simp add: shrinkLoop.simps[of "Suc i" n])
    have "?w1 \<lparr> controller := (controller ?w1) \<lparr> threads := thr', workersReady := rdy' \<rparr> \<rparr>
        = applyEffect (Quit (?thr ! Suc i))
            (w \<lparr> controller := (controller w) \<lparr> threads := thr', workersReady := rdy' \<rparr> \<rparr>)"
      using last by (intro World.equality) simp_all
    with snd res show ?thesis by simp
  qed
qed

lemma sound_tasks_update:
  "sound (w \<lparr> controller := (controller w) \<lparr> tasks := ts \<rparr> \<rparr>) = sound w"
  by (simp add: sound_def outstanding_def)

lemma fold_applyEffect_append:
  "fold applyEffect (es @ es') w = fold applyEffect es' (fold applyEffect es w)"
  by simp

lemma controller_fold_applyEffect [simp]:
  "controller (fold applyEffect es w) = controller w"
proof (induction es arbitrary: w)
  case Nil
  then show ?case by simp
next
  case (Cons e es)
  then show ?case by (cases e) simp_all
qed

lemma nextUuid_fold_applyEffect [simp]:
  "nextUuid (fold applyEffect es w) = nextUuid w"
proof (induction es arbitrary: w)
  case Nil
  then show ?case by simp
next
  case (Cons e es)
  then show ?case by (cases e) simp_all
qed

lemma applyEffect_controller_update:
  "applyEffect e (w \<lparr> controller := c \<rparr>) = (applyEffect e w) \<lparr> controller := c \<rparr>"
  by (cases e) simp_all

lemma fold_applyEffect_controller_update:
  "fold applyEffect es (w \<lparr> controller := c \<rparr>) = (fold applyEffect es w) \<lparr> controller := c \<rparr>"
  by (induction es arbitrary: w) (simp_all add: applyEffect_controller_update)

lemma setNumberOfThreads_sound:
  fixes w :: "'t World"
  assumes s: "sound w"
  shows "\<exists>w'. step (SetNumberOfThreads n) w = Some w' \<and> sound w'"
proof -
  let ?c = "controller w"
  let ?cur = "length (threads ?c)"
  consider (zero) "n = 0"
    | (shrink) "n \<noteq> 0" "unat n < ?cur"
    | (grow) "n \<noteq> 0" "\<not> unat n < ?cur" "\<not> isInDestructor ?c \<and> unat n > ?cur"
    | (same) "n \<noteq> 0" "\<not> unat n < ?cur" "\<not> (\<not> isInDestructor ?c \<and> unat n > ?cur)"
    by blast
  then show ?thesis
  proof cases
    case zero
    then show ?thesis
      using sound_quit_all[OF s, of "threads ?c"]
      by (simp add: setNumberOfThreads_def withEffects_def)
  next
    case shrink
    then have pos: "0 < unat n" by (simp add: unat_gt_0)
    from shrink obtain i where i: "Suc i = ?cur" by (cases ?cur) auto
    then have i': "?cur - 1 = i" by simp
    from shrinkLoop_sound[OF s i pos] shrink i
    obtain thr' rdy' and es :: "'t effect list" where
      "shrinkLoop i (unat n) (threads ?c) (workersReady ?c) = Some (thr', rdy', es)"
      "sound (fold applyEffect es (w \<lparr> controller := ?c \<lparr> threads := thr', workersReady := rdy' \<rparr> \<rparr>))"
      by (metis less_or_eq_imp_le)
    with shrink i' show ?thesis
      by (simp add: setNumberOfThreads_def withEffects_def)
  next
    case grow
    obtain u' thr' rdy' and es :: "'t effect list" where
      g: "growLoop ?cur (unat n) (nextUuid w) (threads ?c) (workersReady ?c) = (u', thr', rdy', es)"
      by (metis prod_cases4)
    have lt: "unat n < 2 ^ 64" using unsigned_less[of n] by simp
    let ?w1 = "fold applyEffect es
           (w \<lparr> controller := ?c \<lparr> threads := thr', workersReady := rdy' \<rparr>, nextUuid := u' \<rparr>)"
    have s1: "sound ?w1" by (rule growLoop_sound[OF s refl lt g])
    from checkTasks_sound[OF s1] obtain r where
      r: "checkTasks (controller ?w1) = Some r" "sound (withEffects ?w1 r)" by blast
    have c1: "controller ?w1 = ?c \<lparr> threads := thr', workersReady := rdy' \<rparr>" by simp
    have e1: "?w1 = (fold applyEffect es (w \<lparr> nextUuid := u' \<rparr>))
                      \<lparr> controller := ?c \<lparr> threads := thr', workersReady := rdy' \<rparr> \<rparr>"
    proof -
      have "w \<lparr> controller := ?c \<lparr> threads := thr', workersReady := rdy' \<rparr>, nextUuid := u' \<rparr>
          = w \<lparr> nextUuid := u', controller := ?c \<lparr> threads := thr', workersReady := rdy' \<rparr> \<rparr>"
        by (intro World.equality) simp_all
      then show ?thesis
        by (simp only: fold_applyEffect_controller_update)
    qed
    have "withEffects ?w1 r = withEffects (w \<lparr> nextUuid := u' \<rparr>) (fst r, es @ snd r)"
      unfolding e1 by (simp add: withEffects_def fold_applyEffect_controller_update)
    with r c1 grow g show ?thesis
      by (cases r) (simp add: setNumberOfThreads_def)
  next
    case same
    then show ?thesis
      using s by (auto simp: setNumberOfThreads_def withEffects_def)
  qed
qed

lemma unat_workerID:
  "j < 2 ^ 64 \<Longrightarrow> unat ((word_of_nat (Suc j) :: size_t) - 1) = j"
  by (simp add: unat_of_nat)

lemma sound_receiveTask:
  assumes s: "sound w"
  shows "sound (receiveTask u w)"
proof (cases "eventLoop w u")
  case Nil
  with s show ?thesis by (simp add: receiveTask_def)
next
  case (Cons t rest)
  let ?w' = "w \<lparr> eventLoop := (eventLoop w)(u := rest), finished := finished w @ [(workerIDs w u, u)] \<rparr>"
  note d = soundD[OF s]
  have lt: "u < nextUuid w" using d(10)[of u] Cons by (cases "u < nextUuid w") auto
  have out: "\<And>v. outstanding ?w' v = outstanding w v"
    using Cons by (auto simp: outstanding_def)
  have "sound ?w'"
  proof (rule soundI)
    show "\<And>j. j < length (threads (controller ?w')) \<Longrightarrow>
           outstanding ?w' (threads (controller ?w') ! j)
             = (if j \<in> set (workersReady (controller ?w')) then 0 else 1)"
      unfolding out using d(8) by simp
    show "\<And>e. e \<in> set (finished ?w') \<Longrightarrow> fst e = workerIDs ?w' (snd e) \<and> snd e < nextUuid ?w'"
      using d(9) lt by auto
    show "\<And>u'. nextUuid ?w' \<le> u' \<Longrightarrow> eventLoop ?w' u' = []"
      using d(10) lt by auto
  qed (use d in simp_all)
  with Cons show ?thesis by (simp add: receiveTask_def)
qed

lemma workerFinished_sound:
  fixes w :: "'t World"
  assumes s: "sound w"
  shows "\<exists>w'. step WorkerFinished w = Some w' \<and> sound w'"
proof (cases "finished w")
  case Nil
  with s show ?thesis by simp
next
  case (Cons e rest)
  obtain wid u where e: "e = (wid, u)" by (cases e)
  let ?c = "controller w"
  let ?thr = "threads ?c"
  let ?idx = "unat (wid - 1)"
  note d = soundD[OF s]
  have wid: "wid = workerIDs w u" using d(9)[of e] Cons e by simp
  have cnt: "\<And>v. outstanding w v
               = outstanding (w \<lparr> finished := rest \<rparr>) v + (if v = u then 1 else 0)"
    using Cons e by (simp add: outstanding_def)
  show ?thesis
  proof (cases "?idx < length ?thr \<and> u = ?thr ! ?idx")
    case True
    then have idx: "?idx < length ?thr" and u: "?thr ! ?idx = u" by simp_all
    have other: "\<And>j. j < length ?thr \<Longrightarrow> j \<noteq> ?idx \<Longrightarrow> ?thr ! j \<noteq> u"
      using idx u d(4) by (auto simp: nth_eq_iff_index_eq)
    have notrdy: "?idx \<notin> set (workersReady ?c)"
      using d(8)[OF idx] cnt[of u] u by (auto split: if_splits)
    have out0: "outstanding (w \<lparr> finished := rest \<rparr>) u = 0"
      using d(8)[OF idx] cnt[of u] u notrdy by simp
    let ?w1 = "w \<lparr> finished := rest,
                   controller := ?c \<lparr> workersReady := set_insert ?idx (workersReady ?c) \<rparr> \<rparr>"
    have out1: "\<And>v. outstanding ?w1 v = outstanding (w \<lparr> finished := rest \<rparr>) v"
      by (simp add: outstanding_def)
    have s1: "sound ?w1"
    proof (rule soundI)
      show "\<And>j. j \<in> set (workersReady (controller ?w1)) \<Longrightarrow> j < length (threads (controller ?w1))"
        using d(3) idx by auto
      show "\<And>j. j < length (threads (controller ?w1)) \<Longrightarrow>
           outstanding ?w1 (threads (controller ?w1) ! j)
             = (if j \<in> set (workersReady (controller ?w1)) then 0 else 1)"
      proof -
        fix j assume j: "j < length (threads (controller ?w1))"
        show "outstanding ?w1 (threads (controller ?w1) ! j)
             = (if j \<in> set (workersReady (controller ?w1)) then 0 else 1)"
        proof (cases "j = ?idx")
          case True
          with out0 u show ?thesis unfolding out1 by simp
        next
          case False
          with other[of j] j d(8)[of j] cnt[of "?thr ! j"] show ?thesis
            unfolding out1 by simp
        qed
      qed
      show "\<And>e. e \<in> set (finished ?w1) \<Longrightarrow> fst e = workerIDs ?w1 (snd e) \<and> snd e < nextUuid ?w1"
        using d(9) Cons by simp
    qed (use d in simp_all)
    from checkTasks_sound[OF s1] obtain r where
      r: "checkTasks (controller ?w1) = Some r" "sound (withEffects ?w1 r)" by blast
    have "withEffects ?w1 r = withEffects (w \<lparr> finished := rest \<rparr>) r"
      by (simp add: withEffects_def)
    with r True Cons e show ?thesis
      by (simp add: workerFinished_def Let_def)
  next
    case False
    have notin: "u \<notin> set ?thr"
    proof
      assume "u \<in> set ?thr"
      then obtain j where j: "j < length ?thr" "?thr ! j = u" by (auto simp: in_set_conv_nth)
      then have "wid = word_of_nat (Suc j)" using wid d(7)[of j] by simp
      moreover have "j < 2 ^ 64" using j(1) d(6) by simp
      ultimately have "?idx = j" by (simp only: unat_workerID)
      with j False show False by simp
    qed
    have "sound (w \<lparr> finished := rest \<rparr>)"
    proof (rule soundI)
      show "\<And>j. j < length (threads (controller (w \<lparr> finished := rest \<rparr>))) \<Longrightarrow>
           outstanding (w \<lparr> finished := rest \<rparr>) (threads (controller (w \<lparr> finished := rest \<rparr>)) ! j)
             = (if j \<in> set (workersReady (controller (w \<lparr> finished := rest \<rparr>))) then 0 else 1)"
      proof -
        fix j assume j: "j < length (threads (controller (w \<lparr> finished := rest \<rparr>)))"
        then have "?thr ! j \<in> set ?thr" by simp
        then have "?thr ! j \<noteq> u" using notin by blast
        with j d(8)[of j] cnt[of "?thr ! j"]
        show "outstanding (w \<lparr> finished := rest \<rparr>) (threads (controller (w \<lparr> finished := rest \<rparr>)) ! j)
             = (if j \<in> set (workersReady (controller (w \<lparr> finished := rest \<rparr>))) then 0 else 1)"
          by simp
      qed
      show "\<And>e. e \<in> set (finished (w \<lparr> finished := rest \<rparr>)) \<Longrightarrow>
              fst e = workerIDs (w \<lparr> finished := rest \<rparr>) (snd e) \<and> snd e < nextUuid (w \<lparr> finished := rest \<rparr>)"
        using d(9) Cons by simp
    qed (use d in simp_all)
    with False Cons e show ?thesis
      by (auto simp: workerFinished_def Let_def withEffects_def)
  qed
qed

lemma step_sound:
  fixes w :: "'t World"
  assumes s: "sound w"
  shows "\<exists>w'. step e w = Some w' \<and> sound w'"
proof (cases e)
  case (SetNumberOfThreads n)
  then show ?thesis using setNumberOfThreads_sound[OF s] by simp
next
  case (ExtendQueue newTasks)
  show ?thesis
  proof (cases "isInDestructor (controller w)")
    case True
    with ExtendQueue s show ?thesis by (simp add: extendQueue_def withEffects_def)
  next
    case False
    let ?w1 = "w \<lparr> controller := (controller w) \<lparr> tasks := tasks (controller w) @ newTasks \<rparr> \<rparr>"
    have "sound ?w1" using s by (simp add: sound_tasks_update)
    from checkTasks_sound[OF this] obtain r where
      r: "checkTasks (controller ?w1) = Some r" "sound (withEffects ?w1 r)" by blast
    have "withEffects ?w1 r = withEffects w r" by (simp add: withEffects_def)
    with r False ExtendQueue show ?thesis by (simp add: extendQueue_def)
  qed
next
  case ClearQueue
  with s show ?thesis by (simp add: clearQueue_def sound_tasks_update)
next
  case CheckTasks
  with checkTasks_sound[OF s] show ?thesis by auto
next
  case WorkerFinished
  with workerFinished_sound[OF s] show ?thesis by simp
next
  case (ReceiveTaskBy u)
  with sound_receiveTask[OF s] show ?thesis by simp
qed

lemma run_sound:
  fixes w :: "'t World"
  assumes "sound w"
  shows "\<exists>w'. run es w = Some w' \<and> sound w'"
  using assms
proof (induction es arbitrary: w)
  case Nil
  then show ?case by simp
next
  case (Cons e es)
  from step_sound[OF Cons.prems, of e] obtain w1 where "step e w = Some w1" "sound w1" by blast
  with Cons.IH[of w1] show ?case by simp
qed

lemma sound_newWorld: "sound newWorld"
  by (simp add: sound_def newWorld_def newController_def outstanding_def)

section \<open>Retired workers\<close>

lemma checkTasks_threads:
  "checkTasks c = Some (c', es) \<Longrightarrow> threads c' = threads c"
  by (auto simp: checkTasks_def)

lemma growLoop_threads:
  fixes es :: "'t effect list"
  assumes "growLoop i n u thr rdy = (u', thr', rdy', es)"
  shows "set thr' \<subseteq> set thr \<union> {u..<u'} \<and> u \<le> u'"
  using assms
proof (induction "n - i" arbitrary: i u thr rdy u' thr' rdy' es)
  case 0
  then have "\<not> i < n" by simp
  with "0.prems" show ?case by (simp add: growLoop.simps[of i n])
next
  case (Suc k)
  then have lt: "i < n" by simp
  obtain u1 thr1 rdy1 and es1 :: "'t effect list" where
    rec: "growLoop (Suc i) n (Suc u) (thr @ [u]) (set_insert i rdy) = (u1, thr1, rdy1, es1)"
    by (metis prod_cases4)
  with Suc.prems lt have res: "u' = u1" "thr' = thr1"
    by (simp_all add: growLoop.simps[of i n])
  have "set thr1 \<subseteq> set (thr @ [u]) \<union> {Suc u..<u1} \<and> Suc u \<le> u1"
    using Suc.hyps(2) by (intro Suc.hyps(1)[OF _ rec]) simp
  with res show ?case by auto
qed

lemma shrinkLoop_threads:
  fixes es :: "'t effect list"
  shows "shrinkLoop i n thr rdy = Some (thr', rdy', es) \<Longrightarrow> set thr' \<subseteq> set thr"
proof (induction i arbitrary: thr rdy es)
  case 0
  then show ?case by (simp add: shrinkLoop.simps[of 0 n] split: if_splits)
next
  case (Suc i)
  show ?case
  proof (cases "n \<le> Suc i \<and> Suc i < length thr")
    case False
    with Suc.prems show ?thesis by (auto simp: shrinkLoop.simps[of "Suc i" n] split: if_splits)
  next
    case True
    with Suc.prems obtain es1 :: "'t effect list" where
      "shrinkLoop i n (butlast thr) (set_erase (Suc i) rdy) = Some (thr', rdy', es1)"
      by (auto simp: shrinkLoop.simps[of "Suc i" n])
    from Suc.IH[OF this] show ?thesis by (auto dest: in_set_butlastD)
  qed
qed

lemma setNumberOfThreads_threads:
  fixes c :: "'t WorkerController"
  assumes "setNumberOfThreads n u c = Some (c', u', es)"
  shows "set (threads c') \<subseteq> set (threads c) \<union> {u..<u'} \<and> u \<le> u'"
proof -
  consider (zero) "n = 0"
    | (shrink) "n \<noteq> 0" "unat n < length (threads c)"
    | (grow) "n \<noteq> 0" "\<not> unat n < length (threads c)" "\<not> isInDestructor c \<and> unat n > length (threads c)"
    | (same) "n \<noteq> 0" "\<not> unat n < length (threads c)" "\<not> (\<not> isInDestructor c \<and> unat n > length (threads c))"
    by blast
  then show ?thesis
  proof cases
    case zero
    with assms show ?thesis by (auto simp: setNumberOfThreads_def)
  next
    case shrink
    with assms obtain thr rdy and es1 :: "'t effect list" where
      "shrinkLoop (length (threads c) - 1) (unat n) (threads c) (workersReady c) = Some (thr, rdy, es1)"
      "threads c' = thr" "u' = u"
      by (auto simp: setNumberOfThreads_def)
    with shrinkLoop_threads[OF this(1)] show ?thesis by simp
  next
    case grow
    obtain u1 thr1 rdy1 and es1 :: "'t effect list" where
      g: "growLoop (length (threads c)) (unat n) u (threads c) (workersReady c) = (u1, thr1, rdy1, es1)"
      by (metis prod_cases4)
    with assms grow obtain es2 where
      "checkTasks (c \<lparr> threads := thr1, workersReady := rdy1 \<rparr>) = Some (c', es2)" "u' = u1"
      by (auto simp: setNumberOfThreads_def)
    with checkTasks_threads[OF this(1)] growLoop_threads[OF g] show ?thesis by simp
  next
    case same
    with assms show ?thesis by (auto simp: setNumberOfThreads_def)
  qed
qed

lemma step_retired:
  assumes "step e w = Some w'" and "retired w u"
  shows "retired w' u"
proof (cases e)
  case (SetNumberOfThreads n)
  with assms(1) obtain c' u' es where
    r: "setNumberOfThreads n (nextUuid w) (controller w) = Some (c', u', es)"
    and w': "w' = withEffects (w \<lparr> nextUuid := u' \<rparr>) (c', es)"
    by auto
  from setNumberOfThreads_threads[OF r] assms(2) w' show ?thesis
    by (auto simp: retired_def withEffects_def)
next
  case (ExtendQueue newTasks)
  with assms show ?thesis
    by (auto simp: retired_def withEffects_def extendQueue_def split: if_splits
        dest!: checkTasks_threads)
next
  case ClearQueue
  with assms show ?thesis by (auto simp: retired_def clearQueue_def split: if_splits)
next
  case CheckTasks
  with assms show ?thesis
    by (auto simp: retired_def withEffects_def dest!: checkTasks_threads)
next
  case WorkerFinished
  with assms show ?thesis
    by (auto simp: retired_def withEffects_def workerFinished_def Let_def
        split: list.splits if_splits dest!: checkTasks_threads)
next
  case (ReceiveTaskBy v)
  with assms show ?thesis
    by (auto simp: retired_def receiveTask_def split: list.splits)
qed

lemma run_retired:
  "run es w = Some w' \<Longrightarrow> retired w u \<Longrightarrow> retired w' u"
proof (induction es arbitrary: w)
  case Nil
  then show ?case by simp
next
  case (Cons e es)
  then obtain w1 where "step e w = Some w1" "run es w1 = Some w'"
    by (auto split: option.splits)
  with Cons.IH[of w1] step_retired[of e w w1 u] Cons.prems(2) show ?case by blast
qed

section \<open>Properties of the ready set\<close>

lemma count_ready:
  assumes s: "sound w"
  shows "length (workersReady (controller w))
           + length (filter (\<lambda>u. outstanding w u = 1) (threads (controller w)))
         = length (threads (controller w))"
proof -
  let ?thr = "threads (controller w)"
  let ?rdy = "workersReady (controller w)"
  note d = soundD[OF s]
  have "{i. i < length ?thr \<and> outstanding w (?thr ! i) = 1} = {..<length ?thr} - set ?rdy"
    using d(8) by auto
  then have "length (filter (\<lambda>u. outstanding w u = 1) ?thr) = card ({..<length ?thr} - set ?rdy)"
    by (simp add: length_filter_conv_card)
  also have "\<dots> = card {..<length ?thr} - card (set ?rdy)"
    using d(3) by (intro card_Diff_subset) auto
  also have "\<dots> = length ?thr - length ?rdy"
    using d(2) by (simp add: distinct_card)
  finally have a: "length (filter (\<lambda>u. outstanding w u = 1) ?thr) = length ?thr - length ?rdy" .
  have "set ?rdy \<subseteq> {..<length ?thr}" using d(3) by auto
  then have "card (set ?rdy) \<le> card {..<length ?thr}" by (intro card_mono) auto
  then have "length ?rdy \<le> length ?thr" using d(2) by (simp add: distinct_card)
  with a show ?thesis by simp
qed

text \<open>
  Claim C4: every sequence of \<^verbatim>\<open>setNumberOfThreads\<close>, \<^verbatim>\<open>extendQueue\<close>, \<^verbatim>\<open>clearQueue\<close>,
  \<^verbatim>\<open>checkTasks\<close> and \<^verbatim>\<open>workerFinished\<close> steps of the controller, interleaved with the
  workers' \<^verbatim>\<open>receiveTask\<close> steps, runs without reading \<^verbatim>\<open>threads\<close> out of range, and in
  the state it reaches every index of the ready set is smaller than the number of workers, the
  ready indices are distinct, the size of the ready set plus the number of workers with
  exactly one outstanding task is the number of workers, and a worker has no outstanding task
  when it is ready and exactly one when it is not.
\<close>

theorem ready_set_invariant:
  "\<exists>w. run events newWorld = Some w \<and>
     (\<forall>i\<in>set (workersReady (controller w)). i < length (threads (controller w))) \<and>
     distinct (workersReady (controller w)) \<and>
     length (workersReady (controller w))
       + length (filter (\<lambda>u. outstanding w u = 1) (threads (controller w)))
       = length (threads (controller w)) \<and>
     (\<forall>i<length (threads (controller w)).
        outstanding w (threads (controller w) ! i)
          = (if i \<in> set (workersReady (controller w)) then 0 else 1))"
proof -
  from run_sound[OF sound_newWorld, of events] obtain w where
    w: "run events newWorld = Some w" "sound w" by blast
  note d = soundD[OF w(2)]
  from w(1) d(2) d(3) d(8) count_ready[OF w(2)] show ?thesis by blast
qed

text \<open>
  After the resize, the late notification of the retired worker and the notification of worker
  0: workers 0 and 3, worker 0 ready, worker 3 with one outstanding task.
\<close>

theorem ready_set_invariant_witness:
  "map_option (\<lambda>w. (threads (controller w), workersReady (controller w),
                     map (outstanding w) (threads (controller w))))
     (run (resizeEvents @ [WorkerFinished, ReceiveTaskBy 0, WorkerFinished]) newWorld)
   = Some ([0, 3], [0], [0, 1])"
proof -
  have ex: "\<exists>w :: nat World.
      run (resizeEvents @ [WorkerFinished, ReceiveTaskBy 0, WorkerFinished]) newWorld = Some w"
    using ready_set_invariant[of "resizeEvents @ [WorkerFinished, ReceiveTaskBy 0, WorkerFinished]"]
    by blast
  have ev: "map_option (\<lambda>w. (threads (controller w), workersReady (controller w),
                     map (outstanding w) (threads (controller w))))
     (run (resizeEvents @ [WorkerFinished, ReceiveTaskBy 0, WorkerFinished]) newWorld)
   = Some ([0, 3], [0], [0, 1])"
    by code_simp
  from ex ev show ?thesis by blast
qed

section \<open>Properties of the ready notification\<close>

lemma run_append:
  "run (es @ es') w = (case run es w of None \<Rightarrow> None | Some w' \<Rightarrow> run es' w')"
  by (induction es arbitrary: w) (auto split: option.splits)

lemma run_append_the:
  "run es w \<noteq> None \<Longrightarrow> run (es @ es') w = run es' (the (run es w))"
  by (cases "run es w") (simp_all add: run_append)

lemma run_newWorld_sound:
  "run es newWorld = Some w \<Longrightarrow> sound w"
  using run_sound[OF sound_newWorld, of es] by auto

lemma sound_notification_index:
  assumes s: "sound w" and e: "(wid, u) \<in> set (finished w)"
    and j: "j < length (threads (controller w))" "threads (controller w) ! j = u"
  shows "unat (wid - 1) = j"
proof -
  note d = soundD[OF s]
  have "wid = word_of_nat (Suc j)" using d(9)[OF e] d(7)[OF j(1)] j(2) by simp
  moreover have "j < 2 ^ 64" using j(1) d(6) by simp
  ultimately show ?thesis by (simp only: unat_workerID)
qed

text \<open>
  Claim C1: \<^verbatim>\<open>workerFinished\<close> inserts the index \<open>workerID - 1\<close> (computed in \<^verbatim>\<open>size_t\<close>)
  into the ready set and runs the assignment loop when that index is smaller than the number
  of workers and the id stored at it is the id of the notification; otherwise, and whenever
  the id belongs to no current worker, it leaves the controller as it is and hands out
  nothing. In every run, a worker once retired stays retired, so that its pending notification
  is dropped with the controller unchanged; and the notification of a current worker names
  that worker's own index.
\<close>

theorem workerFinished_instance_id:
  "(if unat (workerID - 1) < length (threads s) \<and> threads s ! unat (workerID - 1) = workerUuid
    then workerFinished workerID workerUuid s
           = checkTasks (s \<lparr> workersReady := set_insert (unat (workerID - 1)) (workersReady s) \<rparr>) \<and>
         set (set_insert (unat (workerID - 1)) (workersReady s))
           = insert (unat (workerID - 1)) (set (workersReady s))
    else workerFinished workerID workerUuid s = Some (s, [])) \<and>
   (workerUuid \<notin> set (threads s) \<longrightarrow> workerFinished workerID workerUuid s = Some (s, [])) \<and>
   (run before newWorld = Some w1 \<and> retired w1 u \<and> run after w1 = Some w2 \<and>
      finished w2 = (wid, u) # rest
    \<longrightarrow> step WorkerFinished w2 = Some (w2 \<lparr> finished := rest \<rparr>)) \<and>
   (run events newWorld = Some w \<and> finished w = (wid', u') # rest' \<and>
      u' \<in> set (threads (controller w))
    \<longrightarrow> unat (wid' - 1) < length (threads (controller w)) \<and>
        threads (controller w) ! unat (wid' - 1) = u')"
proof -
  have p1: "if unat (workerID - 1) < length (threads s) \<and> threads s ! unat (workerID - 1) = workerUuid
    then workerFinished workerID workerUuid s
           = checkTasks (s \<lparr> workersReady := set_insert (unat (workerID - 1)) (workersReady s) \<rparr>) \<and>
         set (set_insert (unat (workerID - 1)) (workersReady s))
           = insert (unat (workerID - 1)) (set (workersReady s))
    else workerFinished workerID workerUuid s = Some (s, [])"
    by (auto simp: workerFinished_def Let_def)
  have p2: "workerUuid \<notin> set (threads s) \<longrightarrow> workerFinished workerID workerUuid s = Some (s, [])"
    by (auto simp: workerFinished_def Let_def)
  have p3: "run before newWorld = Some w1 \<and> retired w1 u \<and> run after w1 = Some w2 \<and>
      finished w2 = (wid, u) # rest
    \<longrightarrow> step WorkerFinished w2 = Some (w2 \<lparr> finished := rest \<rparr>)"
  proof
    assume a: "run before newWorld = Some w1 \<and> retired w1 u \<and> run after w1 = Some w2 \<and>
      finished w2 = (wid, u) # rest"
    then have "retired w2 u" using run_retired[of after w1 w2 u] by blast
    then have "u \<notin> set (threads (controller w2))" by (simp add: retired_def)
    then have "workerFinished wid u (controller w2) = Some (controller w2, [])"
      by (auto simp: workerFinished_def Let_def)
    with a show "step WorkerFinished w2 = Some (w2 \<lparr> finished := rest \<rparr>)"
      by (simp add: withEffects_def)
  qed
  have p4: "run events newWorld = Some w \<and> finished w = (wid', u') # rest' \<and>
      u' \<in> set (threads (controller w))
    \<longrightarrow> unat (wid' - 1) < length (threads (controller w)) \<and>
        threads (controller w) ! unat (wid' - 1) = u'"
  proof
    assume a: "run events newWorld = Some w \<and> finished w = (wid', u') # rest' \<and>
      u' \<in> set (threads (controller w))"
    then have s: "sound w" using run_newWorld_sound by blast
    from a obtain j where j: "j < length (threads (controller w))" "threads (controller w) ! j = u'"
      by (auto simp: in_set_conv_nth)
    from a have "(wid', u') \<in> set (finished w)" by simp
    from sound_notification_index[OF s this j] j
    show "unat (wid' - 1) < length (threads (controller w)) \<and>
        threads (controller w) ! unat (wid' - 1) = u'"
      by simp
  qed
  from p1 p2 p3 p4 show ?thesis by blast
qed

text \<open>
  On the controller after the resize: the notification of the retired worker 1 for index 1 is
  dropped although index 1 is valid, worker ID 0 wraps around and is dropped, and the
  notification of worker 0 marks index 0 ready. In the run, worker 1 is retired before the
  pool grows again, its notification (2, 1) is pending afterwards, and delivering it only
  removes it.
\<close>

theorem workerFinished_instance_id_witness:
  "workerFinished 2 1 resizedExample = Some (resizedExample, []) \<and>
   workerFinished 0 0 resizedExample = Some (resizedExample, []) \<and>
   workerFinished 1 0 resizedExample
     = Some (resizedExample \<lparr> workersReady := [0] \<rparr>, []) \<and>
   retired (the (run retireEvents newWorld)) 1 \<and>
   map_option (threads \<circ> controller) (run resizeEvents newWorld) = Some [0, 3] \<and>
   map_option finished (run resizeEvents newWorld) = Some [(2, 1)] \<and>
   step WorkerFinished (the (run resizeEvents newWorld))
     = Some ((the (run resizeEvents newWorld)) \<lparr> finished := [] \<rparr>)"
proof -
  let ?w1 = "the (run retireEvents newWorld)"
  let ?w2 = "the (run resizeEvents newWorld)"
  have n1: "run retireEvents newWorld \<noteq> None"
    using run_sound[OF sound_newWorld, of retireEvents] by auto
  then have r1: "run retireEvents newWorld = Some ?w1" by simp
  have e2: "run resizeEvents newWorld = Some ?w2"
    using run_sound[OF sound_newWorld, of resizeEvents] by auto
  have "run [SetNumberOfThreads 2] ?w1 = run resizeEvents newWorld"
    unfolding resizeEvents_def by (rule run_append_the[OF n1, symmetric])
  then have r2: "run [SetNumberOfThreads 2] ?w1 = Some ?w2" using e2 by (rule trans)
  have ret: "retired ?w1 1" unfolding retired_def by code_simp
  have thr: "map_option (threads \<circ> controller) (run resizeEvents newWorld) = Some [0, 3]"
    by code_simp
  have fin: "map_option finished (run resizeEvents newWorld) = Some [(2, 1)]"
    by code_simp
  have fin2: "finished ?w2 = (2, 1) # []"
    by code_simp
  note t = workerFinished_instance_id[of _ resizedExample _ retireEvents ?w1 1
      "[SetNumberOfThreads 2]" ?w2 2 "[]" retireEvents ?w1 0 0 "[]"]
  have a: "workerFinished 2 1 resizedExample = Some (resizedExample, [])"
    using t[of 2 1, THEN conjunct2, THEN conjunct1] by (simp add: resizedExample_def)
  have b: "workerFinished 0 0 resizedExample = Some (resizedExample, [])"
    using t[of 0 0, THEN conjunct1]
    by (simp add: resizedExample_def unsigned_minus_1_eq_mask mask_eq_exp_minus_1)
  have c: "workerFinished 1 0 resizedExample = Some (resizedExample \<lparr> workersReady := [0] \<rparr>, [])"
    using t[of 1 0, THEN conjunct1]
    by (simp add: resizedExample_def checkTasks_def set_insert_def)
  have d: "step WorkerFinished ?w2 = Some (?w2 \<lparr> finished := [] \<rparr>)"
    using t[of 2 1, THEN conjunct2, THEN conjunct2, THEN conjunct1] r1 r2 ret fin2 by blast
  from a b c d ret thr fin show ?thesis by blast
qed

end
